theory Spec2Isabelle
  imports Complex_Main
begin

section \<open>Numbers and time\<close>

text \<open>
  The progress values of AnimatedVisualPlayer.cpp are C++ \<open>double\<close> and \<open>float\<close>. They are
  modelled as \<open>real\<close>. Comparison and clamping are exact on them. The conversion
  \<open>static_cast<float>\<close> of an argument is the identity: the arguments are taken to be
  numbers that a \<open>float\<close> holds (the rounding of a wider \<open>double\<close> and NaN are not part of the
  model). Every arithmetic operation on \<open>float\<close> is the exact operation followed by
  \<open>binary32\<close>, the rounding to the nearest number of the IEEE 754 single format, ties to
  even: 24 significant bits, the smallest exponent of a normal number -126, below it the
  fixed spacing 2^-149. Overflow, to infinity or of the 64-bit tick count, is not part of
  the model. A \<open>winrt::TimeSpan\<close> is a signed count of 100 ns ticks, modelled as \<open>int\<close>.
\<close>

type_synonym TimeSpan = int

definition static_cast_float :: "real \<Rightarrow> real" where
  "static_cast_float x = x"

definition pow2 :: "int \<Rightarrow> real" where
  "pow2 k = (if 0 \<le> k then 2 ^ nat k else 1 / 2 ^ nat (- k))"

definition round_half_even :: "real \<Rightarrow> int" where
  "round_half_even y =
     (let f = \<lfloor>y\<rfloor>
      in if y - of_int f < 1 / 2 then f
         else if 1 / 2 < y - of_int f then f + 1
         else if even f then f else f + 1)"

definition binary32 :: "real \<Rightarrow> real" where
  "binary32 x =
     (if x = 0 then 0
      else
        (let e = max \<lfloor>log 2 \<bar>x\<bar>\<rfloor> (- 126);
             ulp = pow2 (e - 23)
         in of_int (round_half_even (x / ulp)) * ulp))"

text \<open>\<open>std::clamp(v, lo, hi)\<close>: \<open>(v < lo) ? lo : (hi < v) ? hi : v\<close>.\<close>

definition std_clamp :: "real \<Rightarrow> real \<Rightarrow> real \<Rightarrow> real" where
  "std_clamp v lo hi = (if v < lo then lo else if hi < v then hi else v)"

text \<open>
  \<open>std::chrono::duration_cast<winrt::TimeSpan>\<close> of a duration with a floating count: the
  count is converted to the integer tick count by truncation toward zero.
\<close>

definition duration_cast_TimeSpan :: "real \<Rightarrow> TimeSpan" where
  "duration_cast_TimeSpan x = (if 0 \<le> x then \<lfloor>x\<rfloor> else \<lceil>x\<rceil>)"

text \<open>
  \<open>TimeSpan * float\<close> followed by the cast back to \<open>TimeSpan\<close>, as in the constructor: the
  64-bit tick count is converted to \<open>float\<close>, the product is taken in \<open>float\<close>, and the cast
  truncates it.
\<close>

definition TimeSpan_times :: "TimeSpan \<Rightarrow> real \<Rightarrow> TimeSpan" where
  "TimeSpan_times d x = duration_cast_TimeSpan (binary32 (binary32 (real_of_int d) * x))"

text \<open>\<open>winrt::TimeSpan{ 20ms }\<close>: 20 ms are 200000 ticks of 100 ns.\<close>

definition TimeSpan_20ms :: TimeSpan where
  "TimeSpan_20ms = 200000"

definition FLT_EPSILON :: real where
  "FLT_EPSILON = 1 / 2 ^ 23"

section \<open>Data model\<close>

text \<open>
  The composition \<open>AnimationController\<close> of the platform, as far as the source uses it:
  \<open>Pause()\<close>, \<open>Resume()\<close>, \<open>PlaybackRate(v)\<close> and \<open>Progress(v)\<close>.
\<close>

record AnimationController =
  ctl_paused :: bool
  ctl_playbackRate :: real
  ctl_progress :: real

definition Controller_Pause :: "AnimationController \<Rightarrow> AnimationController" where
  "Controller_Pause c = c\<lparr>ctl_paused := True\<rparr>"

definition Controller_Resume :: "AnimationController \<Rightarrow> AnimationController" where
  "Controller_Resume c = c\<lparr>ctl_paused := False\<rparr>"

text \<open>
  The controller handed out by \<open>TryGetAnimationController\<close> for an animation that has just
  been started: running, at the platform's default rate, at the beginning.
\<close>

definition new_AnimationController :: AnimationController where
  "new_AnimationController = \<lparr>ctl_paused = False, ctl_playbackRate = 1, ctl_progress = 0\<rparr>"

datatype IterationBehavior = Forever | Count nat

record KeyFrameAnimation =
  anim_duration :: TimeSpan
  anim_keyFrames :: "(real \<times> real) list"
  anim_iteration :: IterationBehavior

text \<open>
  The fields of \<open>AnimatedVisualPlayer::AnimationPlay\<close>. \<open>m_batch\<close> tells whether a scoped
  batch exists, \<open>m_batchCompletedToken\<close> whether its \<open>Completed\<close> handler is registered.
  \<open>awaits_completed\<close> counts the calls of \<open>CompleteAwaits()\<close> on this play.
\<close>

record AnimationPlay =
  m_fromProgress :: real
  m_toProgress :: real
  m_looped :: bool
  m_playDuration :: TimeSpan
  m_isPaused :: bool
  m_isPausedBecauseHidden :: bool
  m_controller :: "AnimationController option"
  m_batch :: bool
  m_batchCompletedToken :: bool
  awaits_completed :: nat

text \<open>
  The state of an \<open>AnimatedVisualPlayer\<close>. The \<open>AnimationPlay\<close> objects live in the store
  \<open>plays\<close>; a pointer to a play is its index, and \<open>m_nowPlaying\<close> is the owner's
  \<open>shared_ptr\<close> (\<open>None\<close> when empty). \<open>progress\<close> is the scalar "Progress" of
  \<open>m_progressPropertySet\<close> and \<open>progress_animation\<close> the animation running on it, if any.
  \<open>rs5\<close> is the answer of \<open>SharedHelpers::IsRS5OrHigher()\<close>. \<open>is_playing_trace\<close> lists, most
  recent first, every value stored by the \<open>IsPlaying\<close> setter, and \<open>assert_failed\<close> records
  a violated \<open>MUX_ASSERT\<close> (the program goes on, as a release build does). The members
  \<open>m_playAsyncVersion\<close> and \<open>m_currentPlayFromProgress\<close> are declared in the header only;
  the source file fixes no initial value for them, so a state may hold any. Modelled from
  the spec: the version counter is "monotonically increasing", a natural number that does
  not wrap around.
\<close>

record player =
  rs5 :: bool
  progress :: real
  progress_animation :: "KeyFrameAnimation option"
  is_playing :: bool
  is_playing_trace :: "bool list"
  duration :: TimeSpan
  playback_rate :: real
  is_animated_visual_loaded :: bool
  m_nowPlaying :: "nat option"
  plays :: "AnimationPlay list"
  m_playAsyncVersion :: nat
  m_currentPlayFromProgress :: real
  assert_failed :: bool

text \<open>
  User code that runs when the \<open>IsPlaying\<close> property changes. It receives the new value and
  may call back into the player, so it is a state transformer.
\<close>

type_synonym callback = "bool \<Rightarrow> player \<Rightarrow> player"

definition no_callback :: callback where
  "no_callback v s = s"

definition upd_play :: "nat \<Rightarrow> (AnimationPlay \<Rightarrow> AnimationPlay) \<Rightarrow> player \<Rightarrow> player" where
  "upd_play this f s = s\<lparr>plays := (plays s)[this := f (plays s ! this)]\<rparr>"

definition MUX_ASSERT :: "bool \<Rightarrow> player \<Rightarrow> player" where
  "MUX_ASSERT c s = (if c then s else s\<lparr>assert_failed := True\<rparr>)"

section \<open>AnimationPlay\<close>

definition durationAsProgress :: "real \<Rightarrow> real \<Rightarrow> real" where
  "durationAsProgress fromProgress toProgress =
     (if fromProgress > toProgress then binary32 (binary32 (1 - fromProgress) + toProgress)
      else binary32 (toProgress - fromProgress))"

text \<open>The constructor \<open>AnimationPlay(owner, fromProgress, toProgress, looped)\<close>.\<close>

definition new_AnimationPlay :: "player \<Rightarrow> real \<Rightarrow> real \<Rightarrow> bool \<Rightarrow> AnimationPlay" where
  "new_AnimationPlay owner fromProgress toProgress looped =
     \<lparr>m_fromProgress = fromProgress,
      m_toProgress = toProgress,
      m_looped = looped,
      m_playDuration = TimeSpan_times (duration owner) (durationAsProgress fromProgress toProgress),
      m_isPaused = False,
      m_isPausedBecauseHidden = False,
      m_controller = None,
      m_batch = False,
      m_batchCompletedToken = False,
      awaits_completed = 0\<rparr>"

definition FromProgress :: "AnimationPlay \<Rightarrow> real" where
  "FromProgress p = m_fromProgress p"

definition IsCurrentPlay :: "nat \<Rightarrow> player \<Rightarrow> bool" where
  "IsCurrentPlay this s = (m_nowPlaying s = Some this)"

definition AnimationPlay_SetPlaybackRate :: "real \<Rightarrow> AnimationPlay \<Rightarrow> AnimationPlay" where
  "AnimationPlay_SetPlaybackRate v p =
     (case m_controller p of
        None \<Rightarrow> p
      | Some c \<Rightarrow> p\<lparr>m_controller := Some (c\<lparr>ctl_playbackRate := v\<rparr>)\<rparr>)"

definition AnimationPlay_OnHiding :: "AnimationPlay \<Rightarrow> AnimationPlay" where
  "AnimationPlay_OnHiding p =
     (if \<not> m_isPausedBecauseHidden p then
        (let p1 = p\<lparr>m_isPausedBecauseHidden := True\<rparr> in
         case m_controller p1 of
           None \<Rightarrow> p1
         | Some c \<Rightarrow>
             if \<not> m_isPaused p1 then p1\<lparr>m_controller := Some (Controller_Pause c)\<rparr> else p1)
      else p)"

definition AnimationPlay_OnUnhiding :: "AnimationPlay \<Rightarrow> AnimationPlay" where
  "AnimationPlay_OnUnhiding p =
     (if m_isPausedBecauseHidden p then
        (let p1 = p\<lparr>m_isPausedBecauseHidden := False\<rparr> in
         case m_controller p1 of
           None \<Rightarrow> p1
         | Some c \<Rightarrow>
             if \<not> m_isPaused p1 then p1\<lparr>m_controller := Some (Controller_Resume c)\<rparr> else p1)
      else p)"

definition AnimationPlay_Pause :: "AnimationPlay \<Rightarrow> AnimationPlay" where
  "AnimationPlay_Pause p =
     (let p1 = p\<lparr>m_isPaused := True\<rparr> in
      case m_controller p1 of
        None \<Rightarrow> p1
      | Some c \<Rightarrow>
          if \<not> m_isPausedBecauseHidden p1 then p1\<lparr>m_controller := Some (Controller_Pause c)\<rparr>
          else p1)"

definition AnimationPlay_Resume :: "AnimationPlay \<Rightarrow> AnimationPlay" where
  "AnimationPlay_Resume p =
     (let p1 = p\<lparr>m_isPaused := False\<rparr> in
      case m_controller p1 of
        None \<Rightarrow> p1
      | Some c \<Rightarrow>
          if \<not> m_isPausedBecauseHidden p1 then p1\<lparr>m_controller := Some (Controller_Resume c)\<rparr>
          else p1)"

text \<open>
  Modelled from the spec: the generated property setter \<open>IsPlaying(bool)\<close> is not in the
  source file. It stores the flag ("flips the externally observable is-playing flag") and,
  when the value changes, runs the property-changed callbacks, which are user code and may
  re-enter the player.
\<close>

definition IsPlaying_set :: "callback \<Rightarrow> bool \<Rightarrow> player \<Rightarrow> player" where
  "IsPlaying_set h v s =
     (let s1 = s\<lparr>is_playing := v, is_playing_trace := v # is_playing_trace s\<rparr>
      in if is_playing s = v then s1 else h v s1)"

text \<open>
  Modelled from the spec: \<open>CompleteAwaits()\<close> is declared in the header only. It "releases
  any waiters on the async handle" of the play; the model counts the releases. The released
  coroutine goes on later ("It can complete on any thread"), not inside this call.
\<close>

definition CompleteAwaits :: "nat \<Rightarrow> player \<Rightarrow> player" where
  "CompleteAwaits this s = upd_play this (\<lambda>p. p\<lparr>awaits_completed := awaits_completed p + 1\<rparr>) s"

text \<open>\<open>AnimationPlay::Complete()\<close>, called on the play \<open>this\<close>.\<close>

definition AnimationPlay_Complete :: "callback \<Rightarrow> nat \<Rightarrow> player \<Rightarrow> player" where
  "AnimationPlay_Complete h this s =
     (let s1 = (if m_batch (plays s ! this)
                then upd_play this (\<lambda>p. p\<lparr>m_batchCompletedToken := False\<rparr>) s
                else s);
          s2 = (if IsCurrentPlay this s1
                then IsPlaying_set h False (s1\<lparr>m_nowPlaying := None\<rparr>)
                else s1)
      in CompleteAwaits this s2)"

section \<open>AnimatedVisualPlayer\<close>

text \<open>
  \<open>m_progressPropertySet.InsertScalar(L"Progress", v)\<close>: stores the value; inserting the
  scalar stops an animation running on the property (the comments in \<open>SetProgress\<close>).
\<close>

definition InsertScalar_Progress :: "real \<Rightarrow> player \<Rightarrow> player" where
  "InsertScalar_Progress v s = s\<lparr>progress := v, progress_animation := None\<rparr>"

definition SetProgress :: "callback \<Rightarrow> real \<Rightarrow> player \<Rightarrow> player" where
  "SetProgress h progress_arg s =
     (if \<not> rs5 s then s
      else
        (let clampedProgress = std_clamp (static_cast_float progress_arg) 0 1;
             s1 = InsertScalar_Progress (static_cast_float clampedProgress) s
         in case m_nowPlaying s1 of
              None \<Rightarrow> s1
            | Some this \<Rightarrow> AnimationPlay_Complete h this s1))"

definition Stop :: "callback \<Rightarrow> player \<Rightarrow> player" where
  "Stop h s =
     (if \<not> rs5 s then s
      else
        (case m_nowPlaying s of
           None \<Rightarrow> s
         | Some this \<Rightarrow> SetProgress h (m_currentPlayFromProgress s) s))"

definition Pause :: "player \<Rightarrow> player" where
  "Pause s =
     (if \<not> rs5 s then s
      else
        (case m_nowPlaying s of
           None \<Rightarrow> s
         | Some this \<Rightarrow> upd_play this AnimationPlay_Pause s))"

definition Resume :: "player \<Rightarrow> player" where
  "Resume s =
     (if \<not> rs5 s then s
      else
        (case m_nowPlaying s of
           None \<Rightarrow> s
         | Some this \<Rightarrow> upd_play this AnimationPlay_Resume s))"

definition OnHiding :: "player \<Rightarrow> player" where
  "OnHiding s =
     (case m_nowPlaying s of
        None \<Rightarrow> s
      | Some this \<Rightarrow> upd_play this AnimationPlay_OnHiding s)"

definition OnUnhiding :: "player \<Rightarrow> player" where
  "OnUnhiding s =
     (case m_nowPlaying s of
        None \<Rightarrow> s
      | Some this \<Rightarrow> upd_play this AnimationPlay_OnUnhiding s)"

text \<open>
  A change of the \<open>PlaybackRate\<close> property: the property system stores the new value and
  runs \<open>OnPlaybackRatePropertyChanged\<close>, which hands the value to the current play.
\<close>

definition OnPlaybackRatePropertyChanged :: "real \<Rightarrow> player \<Rightarrow> player" where
  "OnPlaybackRatePropertyChanged newValue s =
     (let s1 = s\<lparr>playback_rate := newValue\<rparr>
      in case m_nowPlaying s1 of
           None \<Rightarrow> s1
         | Some this \<Rightarrow>
             upd_play this (AnimationPlay_SetPlaybackRate (static_cast_float newValue)) s1)"

definition CompleteCurrentPlay :: "callback \<Rightarrow> player \<Rightarrow> player" where
  "CompleteCurrentPlay h s =
     (let s1 = (case m_nowPlaying s of
                  None \<Rightarrow> s
                | Some this \<Rightarrow> AnimationPlay_Complete h this s)
      in MUX_ASSERT (m_nowPlaying s1 = None) s1)"

text \<open>\<open>AnimationPlay::Start()\<close>, called on the play \<open>this\<close>.\<close>

definition key_frames :: "real \<Rightarrow> real \<Rightarrow> (real \<times> real) list" where
  "key_frames fromProgress toProgress =
     [(0, fromProgress)]
     @ (if fromProgress > toProgress then
          (let timeToEnd = binary32 (binary32 (1 - fromProgress)
                                     / binary32 (binary32 (1 - fromProgress) + toProgress))
           in [(timeToEnd, 1), (binary32 (timeToEnd + FLT_EPSILON), 0)])
        else [])
     @ [(1, toProgress)]"

definition AnimationPlay_Start :: "callback \<Rightarrow> nat \<Rightarrow> player \<Rightarrow> player" where
  "AnimationPlay_Start h this s0 =
     (let s = MUX_ASSERT (m_controller (plays s0 ! this) = None) s0;
          p = plays s ! this
      in if m_playDuration p < TimeSpan_20ms then SetProgress h (m_fromProgress p) s
         else
           (let animation = \<lparr>anim_duration = m_playDuration p,
                             anim_keyFrames = key_frames (m_fromProgress p) (m_toProgress p),
                             anim_iteration = (if m_looped p then Forever else Count 1)\<rparr>;
                batch = \<not> m_looped p;
                s1 = s\<lparr>progress_animation := Some animation\<rparr>;
                c0 = new_AnimationController;
                c1 = (if m_isPaused p \<or> m_isPausedBecauseHidden p then Controller_Pause c0 else c0);
                playbackRate = static_cast_float (playback_rate s1);
                c2 = c1\<lparr>ctl_playbackRate := playbackRate\<rparr>;
                c3 = (if playbackRate < 0 then c2\<lparr>ctl_progress := 1\<rparr> else c2);
                s2 = upd_play this
                       (\<lambda>q. q\<lparr>m_batch := batch, m_controller := Some c3,
                              m_batchCompletedToken := batch\<rparr>) s1
            in IsPlaying_set h True s2))"

text \<open>
  What the caller of \<open>PlayAsync\<close> holds: the coroutine has returned (\<open>co_return\<close>), or it is
  suspended awaiting the play it created.
\<close>

datatype async_action = Returned | Awaiting nat

definition PlayAsync :: "callback \<Rightarrow> real \<Rightarrow> real \<Rightarrow> bool \<Rightarrow> player \<Rightarrow> async_action \<times> player" where
  "PlayAsync h fromProgress toProgress looped s =
     (if \<not> rs5 s then (Returned, s)
      else
        (let version = m_playAsyncVersion s + 1;
             s1 = s\<lparr>m_playAsyncVersion := version\<rparr>;
             s2 = Stop h s1
         in if version \<noteq> m_playAsyncVersion s2 then (Returned, s2)
            else
              (let s3 = CompleteCurrentPlay h s2;
                   toProgress1 = (if toProgress = 0 \<and> fromProgress > 0 then 1 else toProgress);
                   fromProgress1 = (if toProgress1 > 0 \<and> fromProgress = 1 then 0 else fromProgress);
                   thisPlay = length (plays s3);
                   s4 = s3\<lparr>plays := plays s3 @
                              [new_AnimationPlay s3
                                 (std_clamp (static_cast_float fromProgress1) 0 1)
                                 (std_clamp (static_cast_float toProgress1) 0 1)
                                 looped],
                            m_nowPlaying := Some thisPlay\<rparr>;
                   s5 = (if is_animated_visual_loaded s4 then AnimationPlay_Start h thisPlay s4
                         else s4)
               in (Awaiting thisPlay, s5))))"

text \<open>
  The handler of the batch's \<open>Completed\<close> event, registered in \<open>Start\<close>: it runs
  \<open>this->Complete()\<close> while the handler is registered.
\<close>

definition BatchCompleted :: "callback \<Rightarrow> nat \<Rightarrow> player \<Rightarrow> player" where
  "BatchCompleted h this s =
     (if this < length (plays s) \<and> m_batchCompletedToken (plays s ! this)
      then AnimationPlay_Complete h this s
      else s)"

section \<open>Calls from outside and re-entrant callbacks\<close>

datatype call =
    CallPlayAsync real real bool
  | CallPause
  | CallResume
  | CallSetProgress real
  | CallStop
  | CallOnHiding
  | CallOnUnhiding
  | CallPlaybackRate real
  | CallBatchCompleted nat

fun exec :: "callback \<Rightarrow> call \<Rightarrow> player \<Rightarrow> player" where
  "exec h (CallPlayAsync f t l) s = snd (PlayAsync h f t l s)"
| "exec h CallPause s = Pause s"
| "exec h CallResume s = Resume s"
| "exec h (CallSetProgress v) s = SetProgress h v s"
| "exec h CallStop s = Stop h s"
| "exec h CallOnHiding s = OnHiding s"
| "exec h CallOnUnhiding s = OnUnhiding s"
| "exec h (CallPlaybackRate v) s = OnPlaybackRatePropertyChanged v s"
| "exec h (CallBatchCompleted i) s = BatchCompleted h i s"

text \<open>
  A terminating callback, unfolded: for the new value of \<open>IsPlaying\<close> and the state it sees,
  the calls it makes on the player, each with the callback that is in force while that
  call runs. Nesting is finite, as in any run of the program that returns.
\<close>

datatype handler = Handler "bool \<Rightarrow> player \<Rightarrow> (call \<times> handler) list"

fun run_calls :: "(call \<times> callback) list \<Rightarrow> player \<Rightarrow> player" where
  "run_calls [] s = s"
| "run_calls ((c, h) # cs) s = run_calls cs (exec h c s)"

primrec fire :: "handler \<Rightarrow> callback" where
  "fire (Handler f) = (\<lambda>v s. run_calls (map (map_prod id fire) (f v s)) s)"

section \<open>Invariants and auxiliary definitions\<close>

text \<open>
  A play is live while \<open>CompleteAwaits()\<close> has not been called on it. \<open>store_inv Z\<close> says
  that the live plays are the current play and the plays of \<open>Z\<close>, the plays that are in the
  middle of \<open>Complete()\<close>: detached from the player, their awaits not yet released. With
  \<open>Z = {}\<close> it says that a play that has not completed is the current play, so at most one
  play is live. It also says that no play completes twice, that a registered batch handler
  belongs to the current play, and that a play exists on RS5 or higher only. \<open>player_inv\<close>
  adds that \<open>IsPlaying\<close> is true only while there is a current play.
\<close>

definition live :: "player \<Rightarrow> nat set" where
  "live s = {i. i < length (plays s) \<and> awaits_completed (plays s ! i) = 0}"

definition store_inv :: "nat set \<Rightarrow> player \<Rightarrow> bool" where
  "store_inv Z s \<longleftrightarrow>
     live s = set_option (m_nowPlaying s) \<union> Z
   \<and> (\<forall>i. m_nowPlaying s = Some i \<longrightarrow> i \<notin> Z)
   \<and> (\<forall>i < length (plays s). awaits_completed (plays s ! i) \<le> 1)
   \<and> (\<forall>i < length (plays s). m_batchCompletedToken (plays s ! i) \<longrightarrow>
         m_batch (plays s ! i) \<and> m_nowPlaying s = Some i)
   \<and> (m_nowPlaying s \<noteq> None \<longrightarrow> rs5 s)"

definition player_inv :: "nat set \<Rightarrow> player \<Rightarrow> bool" where
  "player_inv Z s \<longleftrightarrow> store_inv Z s \<and> (is_playing s \<longrightarrow> m_nowPlaying s \<noteq> None)"

text \<open>
  What one call may do to the version counter: it never decreases it, and a call that leaves
  it as it was has not installed a play. \<open>callback_ok\<close> is the contract the operations need
  from a callback; \<open>fire H\<close> meets it for every handler \<open>H\<close>. \<open>after_Stop\<close> is the
  state in which \<open>PlayAsync\<close> compares the version counter with the version of the call.
\<close>

definition version_step :: "player \<Rightarrow> player \<Rightarrow> bool" where
  "version_step s s' \<longleftrightarrow>
     m_playAsyncVersion s \<le> m_playAsyncVersion s' \<and> rs5 s' = rs5 s
   \<and> (m_playAsyncVersion s' = m_playAsyncVersion s \<longrightarrow>
         m_nowPlaying s' = None \<or> m_nowPlaying s' = m_nowPlaying s)"

definition callback_ok :: "callback \<Rightarrow> bool" where
  "callback_ok h \<longleftrightarrow>
     (\<forall>Z v s. player_inv Z s \<longrightarrow> player_inv Z (h v s) \<and> version_step s (h v s))"

definition keeps_completion :: "(AnimationPlay \<Rightarrow> AnimationPlay) \<Rightarrow> bool" where
  "keeps_completion f \<longleftrightarrow>
     (\<forall>p. awaits_completed (f p) = awaits_completed p
        \<and> m_batchCompletedToken (f p) = m_batchCompletedToken p
        \<and> m_batch (f p) = m_batch p)"

definition after_Stop :: "callback \<Rightarrow> player \<Rightarrow> player" where
  "after_Stop h s = Stop h (s\<lparr>m_playAsyncVersion := m_playAsyncVersion s + 1\<rparr>)"

text \<open>
  The store only grows: plays are never removed, the values a play was constructed with
  never change, the count of released awaits never decreases, and
  \<open>m_currentPlayFromProgress\<close> is never written.
\<close>

definition store_grows :: "player \<Rightarrow> player \<Rightarrow> bool" where
  "store_grows s s' \<longleftrightarrow>
     length (plays s) \<le> length (plays s')
   \<and> (\<forall>j < length (plays s).
         awaits_completed (plays s ! j) \<le> awaits_completed (plays s' ! j)
       \<and> m_fromProgress (plays s' ! j) = m_fromProgress (plays s ! j)
       \<and> m_toProgress (plays s' ! j) = m_toProgress (plays s ! j)
       \<and> m_looped (plays s' ! j) = m_looped (plays s ! j)
       \<and> m_playDuration (plays s' ! j) = m_playDuration (plays s ! j))
   \<and> m_currentPlayFromProgress s' = m_currentPlayFromProgress s"

definition callback_grows :: "callback \<Rightarrow> bool" where
  "callback_grows h \<longleftrightarrow> (\<forall>v s. store_grows s (h v s))"

definition keeps_range :: "(AnimationPlay \<Rightarrow> AnimationPlay) \<Rightarrow> bool" where
  "keeps_range f \<longleftrightarrow>
     (\<forall>p. awaits_completed p \<le> awaits_completed (f p)
        \<and> m_fromProgress (f p) = m_fromProgress p
        \<and> m_toProgress (f p) = m_toProgress p
        \<and> m_looped (f p) = m_looped p
        \<and> m_playDuration (f p) = m_playDuration p)"

text \<open>
  The two orders of clamping and boundary rewriting: \<open>rewrite_then_clamp\<close> is the order of
  \<open>PlayAsync\<close> (the rewrites act on the arguments, the clamps on their results);
  \<open>spec_clamp_then_rewrite\<close> follows the specification's words (clamp both inputs, then
  rewrite the clamped values).
\<close>

definition rewrite_then_clamp :: "real \<Rightarrow> real \<Rightarrow> real \<times> real" where
  "rewrite_then_clamp fromProgress toProgress =
     (let toProgress1 = (if toProgress = 0 \<and> fromProgress > 0 then 1 else toProgress);
          fromProgress1 = (if toProgress1 > 0 \<and> fromProgress = 1 then 0 else fromProgress)
      in (std_clamp (static_cast_float fromProgress1) 0 1,
          std_clamp (static_cast_float toProgress1) 0 1))"

definition spec_clamp_then_rewrite :: "real \<Rightarrow> real \<Rightarrow> real \<times> real" where
  "spec_clamp_then_rewrite fromProgress toProgress =
     (let f0 = std_clamp fromProgress 0 1;
          t0 = std_clamp toProgress 0 1;
          t1 = (if t0 = 0 \<and> f0 > 0 then 1 else t0);
          f1 = (if t1 > 0 \<and> f0 = 1 then 0 else f0)
      in (f1, t1))"

text \<open>
  Sequences of \<open>Pause\<close>, \<open>Resume\<close>, \<open>OnHiding\<close> and \<open>OnUnhiding\<close> on one play. The two
  flags according to the specification: user pause is set by \<open>Pause\<close> and cleared by
  \<open>Resume\<close>, visibility pause is set by \<open>OnHiding\<close> and cleared by \<open>OnUnhiding\<close>, and
  neither call touches the other flag. \<open>time_driver_suspended\<close> reads the animation
  controller of a started play.
\<close>

datatype pause_call = PauseCall | ResumeCall | HidingCall | UnhidingCall

fun apply_pause_call :: "pause_call \<Rightarrow> AnimationPlay \<Rightarrow> AnimationPlay" where
  "apply_pause_call PauseCall p = AnimationPlay_Pause p"
| "apply_pause_call ResumeCall p = AnimationPlay_Resume p"
| "apply_pause_call HidingCall p = AnimationPlay_OnHiding p"
| "apply_pause_call UnhidingCall p = AnimationPlay_OnUnhiding p"

fun run_pause_calls :: "pause_call list \<Rightarrow> AnimationPlay \<Rightarrow> AnimationPlay" where
  "run_pause_calls [] p = p"
| "run_pause_calls (c # cs) p = run_pause_calls cs (apply_pause_call c p)"

fun spec_user_pause :: "pause_call list \<Rightarrow> bool \<Rightarrow> bool" where
  "spec_user_pause [] b = b"
| "spec_user_pause (PauseCall # cs) b = spec_user_pause cs True"
| "spec_user_pause (ResumeCall # cs) b = spec_user_pause cs False"
| "spec_user_pause (c # cs) b = spec_user_pause cs b"

fun spec_visibility_pause :: "pause_call list \<Rightarrow> bool \<Rightarrow> bool" where
  "spec_visibility_pause [] b = b"
| "spec_visibility_pause (HidingCall # cs) b = spec_visibility_pause cs True"
| "spec_visibility_pause (UnhidingCall # cs) b = spec_visibility_pause cs False"
| "spec_visibility_pause (c # cs) b = spec_visibility_pause cs b"

definition time_driver_suspended :: "AnimationPlay \<Rightarrow> bool option" where
  "time_driver_suspended p = map_option ctl_paused (m_controller p)"

text \<open>
  Concrete players: one with content of one second loaded (\<open>c\<close> is the value held by
  \<open>m_currentPlayFromProgress\<close>), one on a release below RS5, one with content of one
  hour, one with a looping play
  running, and one whose current play, half a millisecond long, is about to be started. The
  play of \<open>started_play\<close> has been started. \<open>replay_handler\<close> is a callback that requests a
  new play whenever \<open>IsPlaying\<close> becomes false.
\<close>

definition loaded_player :: "real \<Rightarrow> player" where
  "loaded_player c =
     \<lparr>rs5 = True, progress = 0, progress_animation = None, is_playing = False,
      is_playing_trace = [], duration = 10000000, playback_rate = 1,
      is_animated_visual_loaded = True, m_nowPlaying = None, plays = [],
      m_playAsyncVersion = 0, m_currentPlayFromProgress = c, assert_failed = False\<rparr>"

definition pre_rs5_player :: player where
  "pre_rs5_player = (loaded_player 0)\<lparr>rs5 := False, duration := 0, is_animated_visual_loaded := False\<rparr>"


definition looping_player :: player where
  "looping_player = snd (PlayAsync no_callback 0 1 True (loaded_player 0))"

definition started_play :: AnimationPlay where
  "started_play = plays (snd (PlayAsync no_callback 0 1 False (loaded_player 0))) ! 0"

definition short_play_player :: player where
  "short_play_player =
     (loaded_player 0)
       \<lparr>plays := [new_AnimationPlay (loaded_player 0) (1/2) (501/1000) False],
        m_nowPlaying := Some 0, m_playAsyncVersion := 1\<rparr>"

definition replay_handler :: handler where
  "replay_handler =
     Handler (\<lambda>v s. if v then [] else [(CallPlayAsync (1/2) 1 False, Handler (\<lambda>v s. []))])"

section \<open>Single-precision rounding\<close>

lemma pow2_pos: "0 < pow2 k"
  by (simp add: pow2_def)

lemma pow2_powr: "pow2 k = 2 powr (of_int k)"
proof (cases "0 \<le> k")
  case True
  then have "(2::real) powr (of_int k) = 2 powr (real (nat k))" by simp
  also have "\<dots> = 2 ^ nat k" by (simp add: powr_realpow)
  finally show ?thesis using True by (simp add: pow2_def)
next
  case False
  then have "(2::real) powr (of_int k) = 2 powr (- real (nat (- k)))" by simp
  also have "\<dots> = 1 / 2 ^ nat (- k)" by (simp add: powr_minus powr_realpow divide_inverse)
  finally show ?thesis using False by (simp add: pow2_def)
qed



lemma floor_log2_eq:
  assumes "0 < x" "pow2 k \<le> x" "x < pow2 (k + 1)"
  shows "\<lfloor>log 2 x\<rfloor> = k"
proof (rule floor_unique)
  show "of_int k \<le> log 2 x"
    using assms(1,2) by (simp add: le_log_iff pow2_powr)
  have "x < 2 powr (of_int k + 1)" using assms(3) by (simp add: pow2_powr)
  then show "log 2 x < of_int k + 1"
    using assms(1) by (simp add: log_less_iff)
qed

lemma binary32_eval:
  assumes "pow2 k \<le> \<bar>x\<bar>" "\<bar>x\<bar> < pow2 (k + 1)" "- 126 \<le> k"
  shows "binary32 x = of_int (round_half_even (x / pow2 (k - 23))) * pow2 (k - 23)"
proof -
  from assms(1) pow2_pos[of k] have x: "0 < \<bar>x\<bar>" by linarith
  then have nz: "x \<noteq> 0" by simp
  from floor_log2_eq[OF x assms(1,2)] assms(3)
  have "max \<lfloor>log 2 \<bar>x\<bar>\<rfloor> (- 126) = k" by simp
  then show ?thesis using nz by (simp add: binary32_def Let_def)
qed

lemma binary32_zero [simp]: "binary32 0 = 0"
  by (simp add: binary32_def)




lemma binary32_values:
  "binary32 1 = 1"
  "binary32 (1/2) = 1/2"
  "binary32 (1/4) = 1/4"
  "binary32 (3/5) = 10066330 / 2 ^ 24"
  "binary32 (3/10) = 10066330 / 2 ^ 25"
  "binary32 (1/1000) = 8589935 / 2 ^ 33"
  "binary32 (8388609 / 8388608) = 8388609 / 8388608"
  "binary32 10000000 = 10000000"
  "binary32 5000000 = 5000000"
  "binary32 36000000000 = 35999997952"
  "binary32 35999997952 = 35999997952"
  using binary32_eval[of 0 1] binary32_eval[of "-1" "1/2"] binary32_eval[of "-2" "1/4"]
    binary32_eval[of "-1" "3/5"] binary32_eval[of "-2" "3/10"] binary32_eval[of "-10" "1/1000"]
    binary32_eval[of 0 "8388609 / 8388608"]
    binary32_eval[of 23 10000000] binary32_eval[of 22 5000000]
    binary32_eval[of 35 36000000000] binary32_eval[of 35 35999997952]
  by (simp_all add: pow2_def round_half_even_def)

lemma binary32_products:
  "binary32 (10000000 * (10066330 / 2 ^ 24)) = 6000000"
  "binary32 (10000000 * (10066330 / 2 ^ 25)) = 3000000"
  "binary32 (10000000 * (8589935 / 2 ^ 33)) = 10000"
  using binary32_eval[of 22 "10000000 * (10066330 / 2 ^ 24)"]
    binary32_eval[of 21 "10000000 * (10066330 / 2 ^ 25)"]
    binary32_eval[of 13 "10000000 * (8589935 / 2 ^ 33)"]
  by (simp_all add: pow2_def round_half_even_def)


lemma durationAsProgress_values:
  "durationAsProgress 0 1 = 1"
  "durationAsProgress (1/2) 1 = 1/2"
  "durationAsProgress (1/4) (3/4) = 1/2"
  "durationAsProgress (3/4) (1/4) = 1/2"
  "durationAsProgress (1/2) 0 = 1/2"
  "durationAsProgress (1/5) (4/5) = 10066330 / 2 ^ 24"
  "durationAsProgress 1 (3/10) = 10066330 / 2 ^ 25"
  "durationAsProgress (1/2) (501/1000) = 8589935 / 2 ^ 33"
  "durationAsProgress 1 (1/1000) = 8589935 / 2 ^ 33"
  by (simp_all add: durationAsProgress_def binary32_values)

lemma TimeSpan_times_values:
  "TimeSpan_times 10000000 1 = 10000000"
  "TimeSpan_times 10000000 (1/2) = 5000000"
  "TimeSpan_times 10000000 (10066330 / 2 ^ 24) = 6000000"
  "TimeSpan_times 10000000 (10066330 / 2 ^ 25) = 3000000"
  "TimeSpan_times 10000000 (8589935 / 2 ^ 33) = 10000"
  "TimeSpan_times 36000000000 1 = 35999997952"
  "TimeSpan_times 0 x = 0"
  using binary32_products
  by (simp_all add: TimeSpan_times_def duration_cast_TimeSpan_def binary32_values)

lemma play_duration_values:
  "TimeSpan_times 10000000 (durationAsProgress 0 1) = 10000000"
  "TimeSpan_times 10000000 (durationAsProgress (1/5) (4/5)) = 6000000"
  "TimeSpan_times 10000000 (durationAsProgress (1/2) 1) = 5000000"
  "TimeSpan_times 10000000 (durationAsProgress (1/2) 0) = 5000000"
  "TimeSpan_times 10000000 (durationAsProgress 1 (3/10)) = 3000000"
  "TimeSpan_times 10000000 (durationAsProgress 0 (3/10)) = 3000000"
  "TimeSpan_times 10000000 (durationAsProgress (1/2) (501/1000)) = 10000"
  "TimeSpan_times 10000000 (durationAsProgress 1 (1/1000)) = 10000"
  "TimeSpan_times 10000000 (durationAsProgress 0 (1/1000)) = 10000"
  "TimeSpan_times 36000000000 (durationAsProgress 0 1) = 35999997952"
  "TimeSpan_times 10000000 (durationAsProgress (3/4) (1/4)) = 5000000"
  using binary32_products
  by (simp_all add: TimeSpan_times_def duration_cast_TimeSpan_def durationAsProgress_def
        binary32_values)

lemma key_frames_wrap_at_end:
  "key_frames (1/2) 0 = [(0, 1/2), (1, 1), (1 + FLT_EPSILON, 0), (1, 0)]"
  by (simp add: key_frames_def FLT_EPSILON_def Let_def binary32_values)



section \<open>Evaluation of the concrete players\<close>

lemmas eval_defs = PlayAsync_def Stop_def SetProgress_def CompleteCurrentPlay_def
      MUX_ASSERT_def AnimationPlay_Start_def new_AnimationPlay_def play_duration_values
      std_clamp_def static_cast_float_def
      TimeSpan_20ms_def Let_def upd_play_def IsPlaying_set_def no_callback_def key_frames_def
      new_AnimationController_def InsertScalar_Progress_def AnimationPlay_Complete_def
      IsCurrentPlay_def CompleteAwaits_def

section \<open>The invariant is kept by every operation\<close>

lemma nth_list_update_if:
  "j < length xs \<Longrightarrow> xs[i := x] ! j = (if i = j then x else xs ! j)"
  by (simp add: nth_list_update)

lemma version_step_refl: "version_step s s"
  by (simp add: version_step_def)

lemma version_step_trans: "version_step s s' \<Longrightarrow> version_step s' s'' \<Longrightarrow> version_step s s''"
  unfolding version_step_def by (elim conjE, intro conjI impI) auto

lemma IsPlaying_set_ok:
  assumes "store_inv Z s" "v \<longrightarrow> m_nowPlaying s \<noteq> None" "callback_ok h"
  shows "player_inv Z (IsPlaying_set h v s) \<and> version_step s (IsPlaying_set h v s)"
proof -
  let ?s1 = "s\<lparr>is_playing := v, is_playing_trace := v # is_playing_trace s\<rparr>"
  have i1: "player_inv Z ?s1"
    using assms(1,2) by (simp add: player_inv_def store_inv_def live_def)
  have v1: "version_step s ?s1" by (simp add: version_step_def)
  show ?thesis
  proof (cases "is_playing s = v")
    case True
    then show ?thesis using i1 v1 by (simp add: IsPlaying_set_def Let_def)
  next
    case False
    from assms(3) i1 have "player_inv Z (h v ?s1) \<and> version_step ?s1 (h v ?s1)"
      unfolding callback_ok_def by blast
    then show ?thesis using False v1
      by (auto simp add: IsPlaying_set_def Let_def intro: version_step_trans)
  qed
qed

lemma live_CompleteAwaits: "live (CompleteAwaits i s) = live s - {i}"
  by (auto simp add: live_def CompleteAwaits_def upd_play_def nth_list_update_if split: if_splits)

lemma CompleteAwaits_fields [simp]:
  "m_nowPlaying (CompleteAwaits i s) = m_nowPlaying s"
  "m_playAsyncVersion (CompleteAwaits i s) = m_playAsyncVersion s"
  "rs5 (CompleteAwaits i s) = rs5 s"
  "is_playing (CompleteAwaits i s) = is_playing s"
  "length (plays (CompleteAwaits i s)) = length (plays s)"
  by (simp_all add: CompleteAwaits_def upd_play_def)

lemma CompleteAwaits_ok:
  assumes "player_inv (insert i Z) s" "i \<notin> Z"
  shows "player_inv Z (CompleteAwaits i s)"
proof -
  from assms(1) have L: "live s = set_option (m_nowPlaying s) \<union> insert i Z"
    and N: "m_nowPlaying s \<noteq> Some i"
    by (auto simp add: player_inv_def store_inv_def)
  have a: "live (CompleteAwaits i s) = set_option (m_nowPlaying (CompleteAwaits i s)) \<union> Z"
    using L N assms(2) by (auto simp add: live_CompleteAwaits)
  have il: "i \<in> live s" using L by simp
  then have i0: "i < length (plays s)" "awaits_completed (plays s ! i) = 0"
    by (simp_all add: live_def)
  have b: "\<forall>j < length (plays (CompleteAwaits i s)). awaits_completed (plays (CompleteAwaits i s) ! j) \<le> 1"
    using assms(1) i0
    by (auto simp add: player_inv_def store_inv_def CompleteAwaits_def upd_play_def nth_list_update_if split: if_splits)
  have c: "\<forall>j < length (plays (CompleteAwaits i s)). m_batchCompletedToken (plays (CompleteAwaits i s) ! j) \<longrightarrow>
         m_batch (plays (CompleteAwaits i s) ! j) \<and> m_nowPlaying (CompleteAwaits i s) = Some j"
    using assms(1)
    by (auto simp add: player_inv_def store_inv_def CompleteAwaits_def upd_play_def nth_list_update_if split: if_splits)
  show ?thesis
    unfolding player_inv_def store_inv_def
    using a b c assms(1) by (auto simp add: player_inv_def store_inv_def)
qed

lemma Complete_ok:
  assumes "player_inv Z s" "m_nowPlaying s = Some i" "callback_ok h"
  shows "player_inv Z (AnimationPlay_Complete h i s)"
    and "version_step s (AnimationPlay_Complete h i s)"
    and "m_playAsyncVersion (AnimationPlay_Complete h i s) = m_playAsyncVersion s
           \<Longrightarrow> m_nowPlaying (AnimationPlay_Complete h i s) = None"
    and "i < length (plays (AnimationPlay_Complete h i s))"
    and "awaits_completed (plays (AnimationPlay_Complete h i s) ! i) = 1"
proof -
  let ?s1 = "if m_batch (plays s ! i)
                then upd_play i (\<lambda>p. p\<lparr>m_batchCompletedToken := False\<rparr>) s
                else s"
  let ?s1' = "?s1\<lparr>m_nowPlaying := None\<rparr>"
  let ?s2 = "IsPlaying_set h False ?s1'"
  have eq: "AnimationPlay_Complete h i s = CompleteAwaits i ?s2"
    using assms(2)
    by (simp add: AnimationPlay_Complete_def IsCurrentPlay_def Let_def upd_play_def)
  have iZ: "i \<notin> Z" using assms(1,2) by (simp add: player_inv_def store_inv_def)
  have lv: "live ?s1' = live s"
    by (auto simp add: live_def upd_play_def nth_list_update_if split: if_splits)
  have st: "store_inv (insert i Z) ?s1'"
    unfolding store_inv_def
  proof (intro conjI)
    show "live ?s1' = set_option (m_nowPlaying ?s1') \<union> insert i Z"
      using assms(1,2) lv by (simp add: player_inv_def store_inv_def)
    show "\<forall>ia. m_nowPlaying ?s1' = Some ia \<longrightarrow> ia \<notin> insert i Z" by simp
    show "\<forall>j<length (plays ?s1'). awaits_completed (plays ?s1' ! j) \<le> 1"
      using assms(1) by (auto simp add: player_inv_def store_inv_def upd_play_def nth_list_update_if split: if_splits)
    show "\<forall>j<length (plays ?s1'). m_batchCompletedToken (plays ?s1' ! j) \<longrightarrow>
            m_batch (plays ?s1' ! j) \<and> m_nowPlaying ?s1' = Some j"
      using assms(1,2) by (auto simp add: player_inv_def store_inv_def upd_play_def nth_list_update_if split: if_splits)
    show "m_nowPlaying ?s1' \<noteq> None \<longrightarrow> rs5 ?s1'" by simp
  qed
  from IsPlaying_set_ok[OF st _ assms(3), of False]
  have i2: "player_inv (insert i Z) ?s2" and v2: "version_step ?s1' ?s2" by simp_all
  show "player_inv Z (AnimationPlay_Complete h i s)"
    unfolding eq using i2 iZ by (rule CompleteAwaits_ok)
  have vs: "version_step s ?s2"
    using v2 by (auto simp add: version_step_def upd_play_def)
  then show "version_step s (AnimationPlay_Complete h i s)"
    unfolding eq by (simp add: version_step_def)
  show "m_playAsyncVersion (AnimationPlay_Complete h i s) = m_playAsyncVersion s
           \<Longrightarrow> m_nowPlaying (AnimationPlay_Complete h i s) = None"
    unfolding eq using v2 by (auto simp add: version_step_def upd_play_def)
  have "i \<in> live ?s2" using i2 by (simp add: player_inv_def store_inv_def)
  then have i0: "i < length (plays ?s2)" "awaits_completed (plays ?s2 ! i) = 0"
    by (simp_all add: live_def)
  show "i < length (plays (AnimationPlay_Complete h i s))"
    unfolding eq using i0 by simp
  show "awaits_completed (plays (AnimationPlay_Complete h i s) ! i) = 1"
    unfolding eq using i0 by (simp add: CompleteAwaits_def upd_play_def)
qed

lemma player_inv_InsertScalar:
  "player_inv Z (InsertScalar_Progress v s) = player_inv Z s"
  by (simp add: player_inv_def store_inv_def live_def InsertScalar_Progress_def)

lemma version_step_InsertScalar_left:
  "version_step (InsertScalar_Progress v s) s' = version_step s s'"
  by (simp add: version_step_def InsertScalar_Progress_def)

lemma InsertScalar_fields [simp]:
  "m_nowPlaying (InsertScalar_Progress v s) = m_nowPlaying s"
  "m_playAsyncVersion (InsertScalar_Progress v s) = m_playAsyncVersion s"
  "rs5 (InsertScalar_Progress v s) = rs5 s"
  "plays (InsertScalar_Progress v s) = plays s"
  "is_playing (InsertScalar_Progress v s) = is_playing s"
  by (simp_all add: InsertScalar_Progress_def)

lemma SetProgress_ok:
  assumes "player_inv Z s" "callback_ok h"
  shows "player_inv Z (SetProgress h v s)"
    and "version_step s (SetProgress h v s)"
    and "rs5 s \<Longrightarrow> m_playAsyncVersion (SetProgress h v s) = m_playAsyncVersion s
           \<Longrightarrow> m_nowPlaying (SetProgress h v s) = None"
proof -
  let ?s1 = "InsertScalar_Progress (static_cast_float (std_clamp (static_cast_float v) 0 1)) s"
  have i1: "player_inv Z ?s1" using assms(1) by (simp add: player_inv_InsertScalar)
  show "player_inv Z (SetProgress h v s)"
  proof (cases "m_nowPlaying s")
    case None
    then show ?thesis using assms(1) i1 by (simp add: SetProgress_def Let_def)
  next
    case (Some i)
    then have "m_nowPlaying ?s1 = Some i" by simp
    from Complete_ok(1)[OF i1 this assms(2)] Some assms(1)
    show ?thesis by (simp add: SetProgress_def Let_def)
  qed
  show "version_step s (SetProgress h v s)"
  proof (cases "m_nowPlaying s")
    case None
    then show ?thesis
      by (simp add: SetProgress_def Let_def version_step_def)
  next
    case (Some i)
    then have "m_nowPlaying ?s1 = Some i" by simp
    from Complete_ok(2)[OF i1 this assms(2)] Some
    show ?thesis
      by (simp add: SetProgress_def Let_def version_step_InsertScalar_left version_step_refl)
  qed
  show "rs5 s \<Longrightarrow> m_playAsyncVersion (SetProgress h v s) = m_playAsyncVersion s
           \<Longrightarrow> m_nowPlaying (SetProgress h v s) = None"
  proof (cases "m_nowPlaying s")
    case None
    assume "rs5 s"
    then show ?thesis using None by (simp add: SetProgress_def Let_def)
  next
    case (Some i)
    assume r: "rs5 s" and e: "m_playAsyncVersion (SetProgress h v s) = m_playAsyncVersion s"
    from Some have n1: "m_nowPlaying ?s1 = Some i" by simp
    have eq: "SetProgress h v s = AnimationPlay_Complete h i ?s1"
      using r Some by (simp add: SetProgress_def Let_def)
    from Complete_ok(3)[OF i1 n1 assms(2)] e show ?thesis
      unfolding eq by simp
  qed
qed

lemma Stop_ok:
  assumes "player_inv Z s" "callback_ok h"
  shows "player_inv Z (Stop h s)"
    and "version_step s (Stop h s)"
    and "m_playAsyncVersion (Stop h s) = m_playAsyncVersion s \<Longrightarrow> m_nowPlaying (Stop h s) = None"
proof -
  show "player_inv Z (Stop h s)"
    using SetProgress_ok(1)[OF assms] assms(1)
    by (simp add: Stop_def split: option.split)
  show "version_step s (Stop h s)"
    using SetProgress_ok(2)[OF assms]
    by (simp add: Stop_def version_step_refl split: option.split)
  show "m_playAsyncVersion (Stop h s) = m_playAsyncVersion s \<Longrightarrow> m_nowPlaying (Stop h s) = None"
  proof (cases "m_nowPlaying s")
    case None
    then show ?thesis by (simp add: Stop_def)
  next
    case (Some i)
    assume e: "m_playAsyncVersion (Stop h s) = m_playAsyncVersion s"
    from Some assms(1) have r: "rs5 s" by (simp add: player_inv_def store_inv_def)
    have eq: "Stop h s = SetProgress h (m_currentPlayFromProgress s) s"
      using r Some by (simp add: Stop_def)
    from SetProgress_ok(3)[OF assms r] e show ?thesis unfolding eq by simp
  qed
qed

lemma upd_play_ok:
  assumes "player_inv Z s" "keeps_completion f"
  shows "player_inv Z (upd_play i f s) \<and> version_step s (upd_play i f s)"
proof -
  have lv: "live (upd_play i f s) = live s"
    using assms(2)
    by (auto simp add: live_def upd_play_def keeps_completion_def nth_list_update_if split: if_splits)
  have "store_inv Z (upd_play i f s)"
    unfolding store_inv_def
  proof (intro conjI)
    show "live (upd_play i f s) = set_option (m_nowPlaying (upd_play i f s)) \<union> Z"
      using assms(1) lv by (simp add: player_inv_def store_inv_def upd_play_def)
    show "\<forall>ia. m_nowPlaying (upd_play i f s) = Some ia \<longrightarrow> ia \<notin> Z"
      using assms(1) by (simp add: player_inv_def store_inv_def upd_play_def)
    show "\<forall>j<length (plays (upd_play i f s)). awaits_completed (plays (upd_play i f s) ! j) \<le> 1"
      using assms
      by (auto simp add: player_inv_def store_inv_def upd_play_def keeps_completion_def
            nth_list_update_if split: if_splits)
    show "\<forall>j<length (plays (upd_play i f s)). m_batchCompletedToken (plays (upd_play i f s) ! j) \<longrightarrow>
            m_batch (plays (upd_play i f s) ! j) \<and> m_nowPlaying (upd_play i f s) = Some j"
      using assms
      by (auto simp add: player_inv_def store_inv_def upd_play_def keeps_completion_def
            nth_list_update_if split: if_splits)
    show "m_nowPlaying (upd_play i f s) \<noteq> None \<longrightarrow> rs5 (upd_play i f s)"
      using assms(1) by (simp add: player_inv_def store_inv_def upd_play_def)
  qed
  moreover have "is_playing (upd_play i f s) \<longrightarrow> m_nowPlaying (upd_play i f s) \<noteq> None"
    using assms(1) by (simp add: player_inv_def upd_play_def)
  moreover have "version_step s (upd_play i f s)"
    by (simp add: version_step_def upd_play_def)
  ultimately show ?thesis by (simp add: player_inv_def)
qed

lemma keeps_completion_ops:
  "keeps_completion AnimationPlay_Pause"
  "keeps_completion AnimationPlay_Resume"
  "keeps_completion AnimationPlay_OnHiding"
  "keeps_completion AnimationPlay_OnUnhiding"
  "keeps_completion (AnimationPlay_SetPlaybackRate v)"
  by (simp_all add: keeps_completion_def AnimationPlay_Pause_def AnimationPlay_Resume_def
        AnimationPlay_OnHiding_def AnimationPlay_OnUnhiding_def AnimationPlay_SetPlaybackRate_def
        Let_def split: option.split)

lemma Pause_ok: "player_inv Z s \<Longrightarrow> player_inv Z (Pause s) \<and> version_step s (Pause s)"
  by (simp add: Pause_def upd_play_ok keeps_completion_ops version_step_refl split: option.split)

lemma Resume_ok: "player_inv Z s \<Longrightarrow> player_inv Z (Resume s) \<and> version_step s (Resume s)"
  by (simp add: Resume_def upd_play_ok keeps_completion_ops version_step_refl split: option.split)

lemma OnHiding_ok: "player_inv Z s \<Longrightarrow> player_inv Z (OnHiding s) \<and> version_step s (OnHiding s)"
  by (simp add: OnHiding_def upd_play_ok keeps_completion_ops version_step_refl split: option.split)

lemma OnUnhiding_ok: "player_inv Z s \<Longrightarrow> player_inv Z (OnUnhiding s) \<and> version_step s (OnUnhiding s)"
  by (simp add: OnUnhiding_def upd_play_ok keeps_completion_ops version_step_refl split: option.split)

lemma PlaybackRate_ok:
  assumes "player_inv Z s"
  shows "player_inv Z (OnPlaybackRatePropertyChanged v s)
       \<and> version_step s (OnPlaybackRatePropertyChanged v s)"
proof -
  let ?s1 = "s\<lparr>playback_rate := v\<rparr>"
  have i1: "player_inv Z ?s1" using assms by (simp add: player_inv_def store_inv_def live_def)
  have v1: "version_step s ?s1" by (simp add: version_step_def)
  show ?thesis
  proof (cases "m_nowPlaying s")
    case None
    then show ?thesis using i1 v1 by (simp add: OnPlaybackRatePropertyChanged_def Let_def)
  next
    case (Some i)
    from upd_play_ok[OF i1 keeps_completion_ops(5), of i "static_cast_float v"] v1 Some
    show ?thesis
      by (auto simp add: OnPlaybackRatePropertyChanged_def Let_def intro: version_step_trans)
  qed
qed

lemma BatchCompleted_ok:
  assumes "player_inv Z s" "callback_ok h"
  shows "player_inv Z (BatchCompleted h i s) \<and> version_step s (BatchCompleted h i s)"
proof (cases "i < length (plays s) \<and> m_batchCompletedToken (plays s ! i)")
  case True
  with assms(1) have n: "m_nowPlaying s = Some i" by (simp add: player_inv_def store_inv_def)
  from Complete_ok(1,2)[OF assms(1) n assms(2)] True show ?thesis
    by (simp add: BatchCompleted_def)
next
  case False
  then show ?thesis using assms(1) by (auto simp add: BatchCompleted_def version_step_refl)
qed

lemma MUX_ASSERT_fields [simp]:
  "m_nowPlaying (MUX_ASSERT c s) = m_nowPlaying s"
  "m_playAsyncVersion (MUX_ASSERT c s) = m_playAsyncVersion s"
  "rs5 (MUX_ASSERT c s) = rs5 s"
  "plays (MUX_ASSERT c s) = plays s"
  "is_playing (MUX_ASSERT c s) = is_playing s"
  "playback_rate (MUX_ASSERT c s) = playback_rate s"
  by (simp_all add: MUX_ASSERT_def)

lemma player_inv_MUX_ASSERT: "player_inv Z (MUX_ASSERT c s) = player_inv Z s"
  by (simp add: player_inv_def store_inv_def live_def)

lemma version_step_MUX_ASSERT_left: "version_step (MUX_ASSERT c s) s' = version_step s s'"
  by (simp add: version_step_def)

lemma Start_ok:
  assumes "player_inv Z s" "m_nowPlaying s = Some i" "callback_ok h"
  shows "player_inv Z (AnimationPlay_Start h i s) \<and> version_step s (AnimationPlay_Start h i s)"
proof -
  let ?s = "MUX_ASSERT (m_controller (plays s ! i) = None) s"
  let ?p = "plays s ! i"
  have i0: "player_inv Z ?s" using assms(1) by (simp add: player_inv_MUX_ASSERT)
  show ?thesis
  proof (cases "m_playDuration ?p < TimeSpan_20ms")
    case True
    then have eq: "AnimationPlay_Start h i s = SetProgress h (m_fromProgress ?p) ?s"
      by (simp add: AnimationPlay_Start_def Let_def)
    from SetProgress_ok(1,2)[OF i0 assms(3)] show ?thesis
      unfolding eq by (simp add: version_step_MUX_ASSERT_left)
  next
    case False
    define f where "f = (\<lambda>q::AnimationPlay. q\<lparr>m_batch := \<not> m_looped ?p,
        m_controller := Some
          (let c0 = new_AnimationController;
               c1 = (if m_isPaused ?p \<or> m_isPausedBecauseHidden ?p then Controller_Pause c0 else c0);
               playbackRate = static_cast_float (playback_rate s);
               c2 = c1\<lparr>ctl_playbackRate := playbackRate\<rparr>
           in (if playbackRate < 0 then c2\<lparr>ctl_progress := 1\<rparr> else c2)),
        m_batchCompletedToken := \<not> m_looped ?p\<rparr>)"
    define a where "a = \<lparr>anim_duration = m_playDuration ?p,
                             anim_keyFrames = key_frames (m_fromProgress ?p) (m_toProgress ?p),
                             anim_iteration = (if m_looped ?p then Forever else Count 1)\<rparr>"
    let ?s2 = "upd_play i f (?s\<lparr>progress_animation := Some a\<rparr>)"
    have eq: "AnimationPlay_Start h i s = IsPlaying_set h True ?s2"
      using False by (simp add: AnimationPlay_Start_def Let_def f_def a_def)
    have lv: "live ?s2 = live s"
      by (auto simp add: live_def upd_play_def f_def nth_list_update_if split: if_splits)
    have st: "store_inv Z ?s2"
      unfolding store_inv_def
    proof (intro conjI)
      show "live ?s2 = set_option (m_nowPlaying ?s2) \<union> Z"
        using assms(1) lv by (simp add: player_inv_def store_inv_def upd_play_def)
      show "\<forall>ia. m_nowPlaying ?s2 = Some ia \<longrightarrow> ia \<notin> Z"
        using assms(1) by (simp add: player_inv_def store_inv_def upd_play_def)
      show "\<forall>j<length (plays ?s2). awaits_completed (plays ?s2 ! j) \<le> 1"
        using assms(1)
        by (auto simp add: player_inv_def store_inv_def upd_play_def f_def
              nth_list_update_if split: if_splits)
      show "\<forall>j<length (plays ?s2). m_batchCompletedToken (plays ?s2 ! j) \<longrightarrow>
              m_batch (plays ?s2 ! j) \<and> m_nowPlaying ?s2 = Some j"
        using assms(1,2)
        by (auto simp add: player_inv_def store_inv_def upd_play_def f_def
              nth_list_update_if split: if_splits)
      show "m_nowPlaying ?s2 \<noteq> None \<longrightarrow> rs5 ?s2"
        using assms(1) by (simp add: player_inv_def store_inv_def upd_play_def)
    qed
    have n2: "True \<longrightarrow> m_nowPlaying ?s2 \<noteq> None" using assms(2) by (simp add: upd_play_def)
    have v2: "version_step s ?s2" by (simp add: version_step_def upd_play_def)
    from IsPlaying_set_ok[OF st n2 assms(3)] v2 show ?thesis
      unfolding eq by (blast intro: version_step_trans)
  qed
qed

lemma PlayAsync_ok:
  assumes "player_inv Z s" "callback_ok h"
  shows "player_inv Z (snd (PlayAsync h f t l s)) \<and> version_step s (snd (PlayAsync h f t l s))
       \<and> (rs5 s \<longrightarrow> m_playAsyncVersion s < m_playAsyncVersion (snd (PlayAsync h f t l s)))"
proof (cases "rs5 s")
  case False
  then show ?thesis using assms(1) by (simp add: PlayAsync_def version_step_refl)
next
  case True
  let ?s1 = "s\<lparr>m_playAsyncVersion := m_playAsyncVersion s + 1\<rparr>"
  let ?s2 = "Stop h ?s1"
  have i1: "player_inv Z ?s1" using assms(1) by (simp add: player_inv_def store_inv_def live_def)
  note S = Stop_ok[OF i1 assms(2)]
  have v02: "m_playAsyncVersion s < m_playAsyncVersion ?s2" "rs5 ?s2"
    using S(2) True by (simp_all add: version_step_def)
  show ?thesis
  proof (cases "m_playAsyncVersion s + 1 \<noteq> m_playAsyncVersion ?s2")
    case True
    then have eq: "snd (PlayAsync h f t l s) = ?s2"
      using \<open>rs5 s\<close> by (simp add: PlayAsync_def Let_def)
    show ?thesis unfolding eq using S(1) v02 \<open>rs5 s\<close> by (simp add: version_step_def)
  next
    case False
    then have ve: "m_playAsyncVersion ?s2 = m_playAsyncVersion ?s1" by simp
    from S(3)[OF ve] have n2: "m_nowPlaying ?s2 = None" .
    have c3: "CompleteCurrentPlay h ?s2 = ?s2"
      using n2 by (simp add: CompleteCurrentPlay_def MUX_ASSERT_def)
    define p where "p = new_AnimationPlay ?s2
        (std_clamp (static_cast_float
           (if (if t = 0 \<and> f > 0 then 1 else t) > 0 \<and> f = 1 then 0 else f)) 0 1)
        (std_clamp (static_cast_float (if t = 0 \<and> f > 0 then 1 else t)) 0 1) l"
    let ?n = "length (plays ?s2)"
    let ?s4 = "?s2\<lparr>plays := plays ?s2 @ [p], m_nowPlaying := Some ?n\<rparr>"
    have eq: "snd (PlayAsync h f t l s) =
        (if is_animated_visual_loaded ?s4 then AnimationPlay_Start h ?n ?s4 else ?s4)"
      using \<open>rs5 s\<close> False c3 by (simp add: PlayAsync_def Let_def p_def)
    have ap: "awaits_completed p = 0" "\<not> m_batchCompletedToken p"
      by (simp_all add: p_def new_AnimationPlay_def)
    have L2: "live ?s2 = Z" using S(1) n2 by (simp add: player_inv_def store_inv_def)
    then have Zlt: "\<forall>j\<in>Z. j < ?n" by (auto simp add: live_def)
    have lv: "live ?s4 = insert ?n (live ?s2)"
      using ap by (auto simp add: live_def nth_append split: if_splits)
    have st: "store_inv Z ?s4"
      unfolding store_inv_def
    proof (intro conjI)
      show "live ?s4 = set_option (m_nowPlaying ?s4) \<union> Z"
        using lv L2 by simp
      show "\<forall>ia. m_nowPlaying ?s4 = Some ia \<longrightarrow> ia \<notin> Z"
        using Zlt by auto
      show "\<forall>j<length (plays ?s4). awaits_completed (plays ?s4 ! j) \<le> 1"
        using S(1) ap
        by (auto simp add: player_inv_def store_inv_def nth_append split: if_splits)
      show "\<forall>j<length (plays ?s4). m_batchCompletedToken (plays ?s4 ! j) \<longrightarrow>
              m_batch (plays ?s4 ! j) \<and> m_nowPlaying ?s4 = Some j"
        using S(1) ap n2
        by (auto simp add: player_inv_def store_inv_def nth_append less_Suc_eq split: if_splits)
      show "m_nowPlaying ?s4 \<noteq> None \<longrightarrow> rs5 ?s4"
        using v02 by simp
    qed
    have ip: "\<not> is_playing ?s2" using S(1) n2 by (simp add: player_inv_def)
    have i4: "player_inv Z ?s4" using st ip by (simp add: player_inv_def)
    have v4: "version_step s ?s4" using v02 \<open>rs5 s\<close> by (simp add: version_step_def)
    have b4: "m_playAsyncVersion s < m_playAsyncVersion ?s4" using v02 by simp
    show ?thesis
    proof (cases "is_animated_visual_loaded ?s4")
      case True
      have n4: "m_nowPlaying ?s4 = Some ?n" by simp
      note St = Start_ok[OF i4 n4 assms(2)]
      from St have "m_playAsyncVersion ?s4 \<le> m_playAsyncVersion (AnimationPlay_Start h ?n ?s4)"
        by (simp add: version_step_def)
      with b4 have b5: "m_playAsyncVersion s < m_playAsyncVersion (AnimationPlay_Start h ?n ?s4)"
        by simp
      from St v4 have "version_step s (AnimationPlay_Start h ?n ?s4)"
        by (blast intro: version_step_trans)
      with St b5 True show ?thesis
        unfolding eq by simp
    next
      case False
      then show ?thesis unfolding eq using i4 v4 b4 by simp
    qed
  qed
qed

lemma exec_ok:
  assumes "player_inv Z s" "callback_ok h"
  shows "player_inv Z (exec h c s) \<and> version_step s (exec h c s)"
proof (cases c)
  case (CallPlayAsync f t l)
  then show ?thesis using PlayAsync_ok[OF assms] by simp
next
  case CallPause
  then show ?thesis using Pause_ok[OF assms(1)] by simp
next
  case CallResume
  then show ?thesis using Resume_ok[OF assms(1)] by simp
next
  case (CallSetProgress v)
  then show ?thesis using SetProgress_ok(1,2)[OF assms] by simp
next
  case CallStop
  then show ?thesis using Stop_ok(1,2)[OF assms] by simp
next
  case CallOnHiding
  then show ?thesis using OnHiding_ok[OF assms(1)] by simp
next
  case CallOnUnhiding
  then show ?thesis using OnUnhiding_ok[OF assms(1)] by simp
next
  case (CallPlaybackRate v)
  then show ?thesis using PlaybackRate_ok[OF assms(1)] by simp
next
  case (CallBatchCompleted i)
  then show ?thesis using BatchCompleted_ok[OF assms] by simp
qed

lemma run_calls_ok:
  assumes "\<forall>(c, h) \<in> set cs. callback_ok h" "player_inv Z s"
  shows "player_inv Z (run_calls cs s) \<and> version_step s (run_calls cs s)"
  using assms
proof (induction cs arbitrary: s)
  case Nil
  then show ?case by (simp add: version_step_refl)
next
  case (Cons x cs)
  obtain c h where x: "x = (c, h)" by (cases x)
  from Cons.prems x have hk: "callback_ok h" and rest: "\<forall>(c, h) \<in> set cs. callback_ok h"
    by simp_all
  from exec_ok[OF Cons.prems(2) hk, of c]
  have e: "player_inv Z (exec h c s)" "version_step s (exec h c s)" by simp_all
  from Cons.IH[OF rest e(1)] e(2) show ?case
    unfolding x by (auto intro: version_step_trans)
qed

lemma fire_ok: "callback_ok (fire H)"
proof (induction H)
  case (Handler f)
  show ?case
    unfolding callback_ok_def
  proof (intro allI impI)
    fix Z v s
    assume inv: "player_inv Z s"
    have "\<forall>(c, h) \<in> set (map (map_prod id fire) (f v s)). callback_ok h"
      using Handler.IH by (fastforce)
    from run_calls_ok[OF this inv]
    show "player_inv Z (fire (Handler f) v s) \<and> version_step s (fire (Handler f) v s)"
      by simp
  qed
qed

lemma no_callback_ok: "callback_ok no_callback"
  by (simp add: callback_ok_def no_callback_def version_step_refl)

section \<open>The store only grows\<close>

lemma store_grows_refl: "store_grows s s"
  by (simp add: store_grows_def)

lemma store_grows_trans:
  assumes "store_grows s s'" "store_grows s' s''"
  shows "store_grows s s''"
  unfolding store_grows_def
proof (intro conjI allI impI)
  show "length (plays s) \<le> length (plays s'')"
    using assms by (simp add: store_grows_def)
  show "m_currentPlayFromProgress s'' = m_currentPlayFromProgress s"
    using assms by (simp add: store_grows_def)
next
  fix j assume j: "j < length (plays s)"
  then have j': "j < length (plays s')" using assms(1) by (simp add: store_grows_def)
  from assms(1) j have a: "awaits_completed (plays s ! j) \<le> awaits_completed (plays s' ! j)"
    "m_fromProgress (plays s' ! j) = m_fromProgress (plays s ! j)"
    "m_toProgress (plays s' ! j) = m_toProgress (plays s ! j)"
    "m_looped (plays s' ! j) = m_looped (plays s ! j)"
    "m_playDuration (plays s' ! j) = m_playDuration (plays s ! j)"
    by (simp_all add: store_grows_def)
  from assms(2) j' have b: "awaits_completed (plays s' ! j) \<le> awaits_completed (plays s'' ! j)"
    "m_fromProgress (plays s'' ! j) = m_fromProgress (plays s' ! j)"
    "m_toProgress (plays s'' ! j) = m_toProgress (plays s' ! j)"
    "m_looped (plays s'' ! j) = m_looped (plays s' ! j)"
    "m_playDuration (plays s'' ! j) = m_playDuration (plays s' ! j)"
    by (simp_all add: store_grows_def)
  show "awaits_completed (plays s ! j) \<le> awaits_completed (plays s'' ! j)" using a b by simp
  show "m_fromProgress (plays s'' ! j) = m_fromProgress (plays s ! j)" using a b by simp
  show "m_toProgress (plays s'' ! j) = m_toProgress (plays s ! j)" using a b by simp
  show "m_looped (plays s'' ! j) = m_looped (plays s ! j)" using a b by simp
  show "m_playDuration (plays s'' ! j) = m_playDuration (plays s ! j)" using a b by simp
qed

lemma upd_play_grows: "keeps_range f \<Longrightarrow> store_grows s (upd_play i f s)"
  by (simp add: store_grows_def upd_play_def keeps_range_def nth_list_update_if)

lemma keeps_range_ops:
  "keeps_range AnimationPlay_Pause"
  "keeps_range AnimationPlay_Resume"
  "keeps_range AnimationPlay_OnHiding"
  "keeps_range AnimationPlay_OnUnhiding"
  "keeps_range (AnimationPlay_SetPlaybackRate v)"
  "keeps_range (\<lambda>p. p\<lparr>awaits_completed := awaits_completed p + 1\<rparr>)"
  "keeps_range (\<lambda>p. p\<lparr>m_batchCompletedToken := b\<rparr>)"
  "keeps_range (\<lambda>p. p\<lparr>m_batch := b1, m_controller := c, m_batchCompletedToken := b2\<rparr>)"
  by (simp_all add: keeps_range_def AnimationPlay_Pause_def AnimationPlay_Resume_def
        AnimationPlay_OnHiding_def AnimationPlay_OnUnhiding_def AnimationPlay_SetPlaybackRate_def
        Let_def split: option.split)

lemma store_grows_same_store:
  "plays s' = plays s \<Longrightarrow> m_currentPlayFromProgress s' = m_currentPlayFromProgress s
     \<Longrightarrow> store_grows s s'"
  by (simp add: store_grows_def)

lemma IsPlaying_set_grows:
  assumes "callback_grows h"
  shows "store_grows s (IsPlaying_set h v s)"
proof -
  let ?s1 = "s\<lparr>is_playing := v, is_playing_trace := v # is_playing_trace s\<rparr>"
  have a: "store_grows s ?s1" by (simp add: store_grows_same_store)
  have b: "store_grows ?s1 (h v ?s1)" using assms by (simp add: callback_grows_def)
  show ?thesis
    using a store_grows_trans[OF a b] by (simp add: IsPlaying_set_def Let_def)
qed

lemma Complete_grows:
  assumes "callback_grows h"
  shows "store_grows s (AnimationPlay_Complete h i s)"
proof -
  let ?s1 = "if m_batch (plays s ! i)
                then upd_play i (\<lambda>p. p\<lparr>m_batchCompletedToken := False\<rparr>) s
                else s"
  let ?s2 = "if IsCurrentPlay i ?s1
                then IsPlaying_set h False (?s1\<lparr>m_nowPlaying := None\<rparr>)
                else ?s1"
  have eq: "AnimationPlay_Complete h i s = CompleteAwaits i ?s2"
    by (simp add: AnimationPlay_Complete_def Let_def)
  have a: "store_grows s ?s1"
    by (simp add: store_grows_refl upd_play_grows keeps_range_ops)
  have b0: "store_grows ?s1 (?s1\<lparr>m_nowPlaying := None\<rparr>)"
    by (rule store_grows_same_store) simp_all
  have b: "store_grows ?s1 ?s2"
    using store_grows_trans[OF b0 IsPlaying_set_grows[OF assms]]
    by (simp add: store_grows_refl)
  have c: "store_grows ?s2 (CompleteAwaits i ?s2)"
    unfolding CompleteAwaits_def by (rule upd_play_grows) (rule keeps_range_ops)
  show ?thesis unfolding eq
    using store_grows_trans[OF a store_grows_trans[OF b c]] .
qed

lemma SetProgress_grows:
  assumes "callback_grows h"
  shows "store_grows s (SetProgress h v s)"
proof -
  let ?s1 = "InsertScalar_Progress (static_cast_float (std_clamp (static_cast_float v) 0 1)) s"
  have a: "store_grows s ?s1"
    by (rule store_grows_same_store) (simp_all add: InsertScalar_Progress_def)
  show ?thesis
    using a store_grows_trans[OF a Complete_grows[OF assms]]
    by (simp add: SetProgress_def Let_def store_grows_refl split: option.split)
qed

lemma Stop_grows:
  assumes "callback_grows h"
  shows "store_grows s (Stop h s)"
  using SetProgress_grows[OF assms]
  by (simp add: Stop_def store_grows_refl split: option.split)

lemma Start_grows:
  assumes "callback_grows h"
  shows "store_grows s (AnimationPlay_Start h i s)"
proof -
  let ?s = "MUX_ASSERT (m_controller (plays s ! i) = None) s"
  have a: "store_grows s ?s"
    by (rule store_grows_same_store) (simp_all add: MUX_ASSERT_def)
  show ?thesis
  proof (cases "m_playDuration (plays s ! i) < TimeSpan_20ms")
    case True
    then have eq: "AnimationPlay_Start h i s = SetProgress h (m_fromProgress (plays s ! i)) ?s"
      by (simp add: AnimationPlay_Start_def Let_def)
    show ?thesis unfolding eq
      using store_grows_trans[OF a SetProgress_grows[OF assms]] .
  next
    case False
    obtain a' f where eq: "AnimationPlay_Start h i s =
        IsPlaying_set h True (upd_play i f (?s\<lparr>progress_animation := Some a'\<rparr>))"
      and kf: "keeps_range f"
      using False by (simp add: AnimationPlay_Start_def Let_def keeps_range_ops)
    have b: "store_grows ?s (?s\<lparr>progress_animation := Some a'\<rparr>)"
      by (rule store_grows_same_store) simp_all
    have c: "store_grows (?s\<lparr>progress_animation := Some a'\<rparr>)
               (upd_play i f (?s\<lparr>progress_animation := Some a'\<rparr>))"
      using kf by (rule upd_play_grows)
    show ?thesis unfolding eq
      using store_grows_trans[OF a store_grows_trans[OF b
              store_grows_trans[OF c IsPlaying_set_grows[OF assms]]]] .
  qed
qed

lemma store_grows_append:
  "store_grows s (s\<lparr>plays := plays s @ [p], m_nowPlaying := n\<rparr>)"
  by (simp add: store_grows_def nth_append)

lemma PlayAsync_grows:
  assumes "callback_grows h"
  shows "store_grows s (snd (PlayAsync h f t l s))"
proof (cases "rs5 s")
  case False
  then show ?thesis by (simp add: PlayAsync_def store_grows_refl)
next
  case True
  let ?s1 = "s\<lparr>m_playAsyncVersion := m_playAsyncVersion s + 1\<rparr>"
  let ?s2 = "Stop h ?s1"
  let ?s3 = "CompleteCurrentPlay h ?s2"
  have a: "store_grows s ?s1" by (rule store_grows_same_store) simp_all
  have b: "store_grows s ?s2" using store_grows_trans[OF a Stop_grows[OF assms]] .
  have c0: "store_grows ?s2 ?s3"
  proof -
    let ?c = "case m_nowPlaying ?s2 of None \<Rightarrow> ?s2 | Some this \<Rightarrow> AnimationPlay_Complete h this ?s2"
    have "store_grows ?s2 ?c"
      by (simp add: store_grows_refl Complete_grows[OF assms] split: option.split)
    moreover have "store_grows ?c (MUX_ASSERT (m_nowPlaying ?c = None) ?c)"
      by (rule store_grows_same_store) (simp_all add: MUX_ASSERT_def)
    ultimately show ?thesis
      unfolding CompleteCurrentPlay_def Let_def by (rule store_grows_trans)
  qed
  have c: "store_grows s ?s3" using store_grows_trans[OF b c0] .
  show ?thesis
  proof (cases "m_playAsyncVersion s + 1 \<noteq> m_playAsyncVersion ?s2")
    case True
    then show ?thesis using \<open>rs5 s\<close> b by (simp add: PlayAsync_def Let_def)
  next
    case False
    define p where "p = new_AnimationPlay ?s3
        (std_clamp (static_cast_float
           (if (if t = 0 \<and> f > 0 then 1 else t) > 0 \<and> f = 1 then 0 else f)) 0 1)
        (std_clamp (static_cast_float (if t = 0 \<and> f > 0 then 1 else t)) 0 1) l"
    have eq: "snd (PlayAsync h f t l s) =
        (let s4 = ?s3\<lparr>plays := plays ?s3 @ [p], m_nowPlaying := Some (length (plays ?s3))\<rparr>
         in if is_animated_visual_loaded s4 then AnimationPlay_Start h (length (plays ?s3)) s4 else s4)"
      using \<open>rs5 s\<close> False by (simp add: PlayAsync_def Let_def p_def)
    let ?s4 = "?s3\<lparr>plays := plays ?s3 @ [p], m_nowPlaying := Some (length (plays ?s3))\<rparr>"
    have d: "store_grows s ?s4" using store_grows_trans[OF c store_grows_append] .
    show ?thesis unfolding eq Let_def
      using d store_grows_trans[OF d Start_grows[OF assms]] by simp
  qed
qed

lemma exec_grows:
  assumes "callback_grows h"
  shows "store_grows s (exec h c s)"
proof (cases c)
  case (CallPlayAsync f t l)
  then show ?thesis using PlayAsync_grows[OF assms] by simp
next
  case CallPause
  then show ?thesis
    by (simp add: Pause_def store_grows_refl upd_play_grows keeps_range_ops split: option.split)
next
  case CallResume
  then show ?thesis
    by (simp add: Resume_def store_grows_refl upd_play_grows keeps_range_ops split: option.split)
next
  case (CallSetProgress v)
  then show ?thesis using SetProgress_grows[OF assms] by simp
next
  case CallStop
  then show ?thesis using Stop_grows[OF assms] by simp
next
  case CallOnHiding
  then show ?thesis
    by (simp add: OnHiding_def store_grows_refl upd_play_grows keeps_range_ops split: option.split)
next
  case CallOnUnhiding
  then show ?thesis
    by (simp add: OnUnhiding_def store_grows_refl upd_play_grows keeps_range_ops split: option.split)
next
  case (CallPlaybackRate v)
  have a: "store_grows s (s\<lparr>playback_rate := v\<rparr>)"
    by (rule store_grows_same_store) simp_all
  have "store_grows s (OnPlaybackRatePropertyChanged v s)"
    using a store_grows_trans[OF a upd_play_grows[OF keeps_range_ops(5)]]
    by (simp add: OnPlaybackRatePropertyChanged_def Let_def split: option.split)
  then show ?thesis using CallPlaybackRate by simp
next
  case (CallBatchCompleted i)
  then show ?thesis using Complete_grows[OF assms]
    by (simp add: BatchCompleted_def store_grows_refl)
qed

lemma run_calls_grows:
  assumes "\<forall>(c, h) \<in> set cs. callback_grows h"
  shows "store_grows s (run_calls cs s)"
  using assms
proof (induction cs arbitrary: s)
  case Nil
  then show ?case by (simp add: store_grows_refl)
next
  case (Cons x cs)
  obtain c h where x: "x = (c, h)" by (cases x)
  from Cons.prems x have hk: "callback_grows h" and rest: "\<forall>(c, h) \<in> set cs. callback_grows h"
    by simp_all
  show ?case unfolding x
    using store_grows_trans[OF exec_grows[OF hk] Cons.IH[OF rest]] by simp
qed

lemma fire_grows: "callback_grows (fire H)"
proof (induction H)
  case (Handler f)
  show ?case
    unfolding callback_grows_def
  proof (intro allI)
    fix v s
    have "\<forall>(c, h) \<in> set (map (map_prod id fire) (f v s)). callback_grows h"
      using Handler.IH by fastforce
    from run_calls_grows[OF this]
    show "store_grows s (fire (Handler f) v s)" by simp
  qed
qed

lemma PlayAsync_grows_after_Stop:
  assumes "callback_grows h" "rs5 s"
  shows "store_grows (Stop h (s\<lparr>m_playAsyncVersion := m_playAsyncVersion s + 1\<rparr>))
           (snd (PlayAsync h f t l s))"
proof -
  let ?s1 = "s\<lparr>m_playAsyncVersion := m_playAsyncVersion s + 1\<rparr>"
  let ?s2 = "Stop h ?s1"
  let ?s3 = "CompleteCurrentPlay h ?s2"
  have c0: "store_grows ?s2 ?s3"
  proof -
    let ?c = "case m_nowPlaying ?s2 of None \<Rightarrow> ?s2 | Some this \<Rightarrow> AnimationPlay_Complete h this ?s2"
    have "store_grows ?s2 ?c"
      by (simp add: store_grows_refl Complete_grows[OF assms(1)] split: option.split)
    moreover have "store_grows ?c (MUX_ASSERT (m_nowPlaying ?c = None) ?c)"
      by (rule store_grows_same_store) (simp_all add: MUX_ASSERT_def)
    ultimately show ?thesis
      unfolding CompleteCurrentPlay_def Let_def by (rule store_grows_trans)
  qed
  show ?thesis
  proof (cases "m_playAsyncVersion s + 1 \<noteq> m_playAsyncVersion ?s2")
    case True
    then show ?thesis using assms(2) by (simp add: PlayAsync_def Let_def store_grows_refl)
  next
    case False
    define p where "p = new_AnimationPlay ?s3
        (std_clamp (static_cast_float
           (if (if t = 0 \<and> f > 0 then 1 else t) > 0 \<and> f = 1 then 0 else f)) 0 1)
        (std_clamp (static_cast_float (if t = 0 \<and> f > 0 then 1 else t)) 0 1) l"
    have eq: "snd (PlayAsync h f t l s) =
        (let s4 = ?s3\<lparr>plays := plays ?s3 @ [p], m_nowPlaying := Some (length (plays ?s3))\<rparr>
         in if is_animated_visual_loaded s4 then AnimationPlay_Start h (length (plays ?s3)) s4 else s4)"
      using assms(2) False by (simp add: PlayAsync_def Let_def p_def)
    let ?s4 = "?s3\<lparr>plays := plays ?s3 @ [p], m_nowPlaying := Some (length (plays ?s3))\<rparr>"
    have d: "store_grows ?s2 ?s4" using store_grows_trans[OF c0 store_grows_append] .
    show ?thesis unfolding eq Let_def
      using d store_grows_trans[OF d Start_grows[OF assms(1)]] by simp
  qed
qed

section \<open>Consequences of the invariant\<close>

lemma player_inv_current_live:
  assumes "player_inv Z s" "m_nowPlaying s = Some i"
  shows "i < length (plays s)" "awaits_completed (plays s ! i) = 0"
proof -
  from assms have "i \<in> live s" by (simp add: player_inv_def store_inv_def)
  then show "i < length (plays s)" "awaits_completed (plays s ! i) = 0"
    by (simp_all add: live_def)
qed

lemma player_inv_completed:
  assumes "player_inv Z s" "i < length (plays s)" "1 \<le> awaits_completed (plays s ! i)"
  shows "awaits_completed (plays s ! i) = 1" "m_nowPlaying s \<noteq> Some i"
proof -
  from assms(1,2) have "awaits_completed (plays s ! i) \<le> 1"
    by (simp add: player_inv_def store_inv_def)
  with assms(3) show "awaits_completed (plays s ! i) = 1" by simp
  show "m_nowPlaying s \<noteq> Some i"
    using player_inv_current_live(2)[OF assms(1), of i] assms(3) by auto
qed

lemma player_inv_uncompleted_is_current:
  assumes "player_inv {} s" "i < length (plays s)" "awaits_completed (plays s ! i) = 0"
  shows "m_nowPlaying s = Some i"
proof -
  from assms(2,3) have "i \<in> live s" by (simp add: live_def)
  with assms(1) show ?thesis by (auto simp add: player_inv_def store_inv_def)
qed

lemma detached_store_inv:
  assumes "player_inv Z s" "m_nowPlaying s = Some i"
  shows "store_inv (insert i Z)
           ((if m_batch (plays s ! i)
             then upd_play i (\<lambda>p. p\<lparr>m_batchCompletedToken := False\<rparr>) s
             else s)\<lparr>m_nowPlaying := None\<rparr>)"
    (is "store_inv _ ?d")
  unfolding store_inv_def
proof (intro conjI)
  have lv: "live ?d = live s"
    by (auto simp add: live_def upd_play_def nth_list_update_if split: if_splits)
  show "live ?d = set_option (m_nowPlaying ?d) \<union> insert i Z"
    using assms lv by (simp add: player_inv_def store_inv_def)
  show "\<forall>ia. m_nowPlaying ?d = Some ia \<longrightarrow> ia \<notin> insert i Z" by simp
  show "\<forall>j<length (plays ?d). awaits_completed (plays ?d ! j) \<le> 1"
    using assms(1)
    by (auto simp add: player_inv_def store_inv_def upd_play_def nth_list_update_if split: if_splits)
  show "\<forall>j<length (plays ?d). m_batchCompletedToken (plays ?d ! j) \<longrightarrow>
          m_batch (plays ?d ! j) \<and> m_nowPlaying ?d = Some j"
    using assms
    by (auto simp add: player_inv_def store_inv_def upd_play_def nth_list_update_if split: if_splits)
  show "m_nowPlaying ?d \<noteq> None \<longrightarrow> rs5 ?d" by simp
qed

lemma run_calls_bumps:
  assumes "\<forall>(c, h) \<in> set cs. callback_ok h" "player_inv Z s" "rs5 s"
    and "(CallPlayAsync f t l, h0) \<in> set cs"
  shows "m_playAsyncVersion s < m_playAsyncVersion (run_calls cs s)"
  using assms
proof (induction cs arbitrary: s)
  case Nil
  then show ?case by simp
next
  case (Cons x cs)
  obtain c h where x: "x = (c, h)" by (cases x)
  from Cons.prems(1) x have hk: "callback_ok h" and rest: "\<forall>(c, h) \<in> set cs. callback_ok h"
    by simp_all
  from exec_ok[OF Cons.prems(2) hk, of c]
  have e: "player_inv Z (exec h c s)" "version_step s (exec h c s)" by simp_all
  from e(2) Cons.prems(3) have r: "rs5 (exec h c s)"
    and le: "m_playAsyncVersion s \<le> m_playAsyncVersion (exec h c s)"
    by (simp_all add: version_step_def)
  show ?case
  proof (cases "x = (CallPlayAsync f t l, h0)")
    case True
    with x have c: "c = CallPlayAsync f t l" by simp
    from PlayAsync_ok[OF Cons.prems(2) hk, of f t l] Cons.prems(3)
    have "m_playAsyncVersion s < m_playAsyncVersion (exec h c s)"
      unfolding c by simp
    moreover from run_calls_ok[OF rest e(1)]
    have "m_playAsyncVersion (exec h c s) \<le> m_playAsyncVersion (run_calls cs (exec h c s))"
      by (simp add: version_step_def)
    ultimately show ?thesis unfolding x by simp
  next
    case False
    with Cons.prems(4) have "(CallPlayAsync f t l, h0) \<in> set cs" by simp
    from Cons.IH[OF rest e(1) r this] le show ?thesis unfolding x by simp
  qed
qed

lemma Stop_overtaken:
  assumes "player_inv Z s" "is_playing s"
    and "\<forall>s0. \<exists>f' t' l' H'. (CallPlayAsync f' t' l', H') \<in> set (g False s0)"
  shows "m_playAsyncVersion s < m_playAsyncVersion (Stop (fire (Handler g)) s)"
proof -
  from assms(1,2) obtain i where n: "m_nowPlaying s = Some i"
    by (auto simp add: player_inv_def)
  with assms(1) have r: "rs5 s" by (simp add: player_inv_def store_inv_def)
  let ?h = "fire (Handler g)"
  let ?s1a = "InsertScalar_Progress
      (static_cast_float (std_clamp (static_cast_float (m_currentPlayFromProgress s)) 0 1)) s"
  let ?d = "(if m_batch (plays ?s1a ! i)
             then upd_play i (\<lambda>p. p\<lparr>m_batchCompletedToken := False\<rparr>) ?s1a
             else ?s1a)\<lparr>m_nowPlaying := None\<rparr>"
  let ?e = "?d\<lparr>is_playing := False, is_playing_trace := False # is_playing_trace ?d\<rparr>"
  have i1: "player_inv Z ?s1a" using assms(1) by (simp add: player_inv_InsertScalar)
  have n1: "m_nowPlaying ?s1a = Some i" using n by simp
  have pd: "is_playing ?d" using assms(2) by (simp add: upd_play_def)
  have eq: "Stop ?h s = CompleteAwaits i (?h False ?e)"
    using r n pd
    by (simp add: Stop_def SetProgress_def AnimationPlay_Complete_def IsCurrentPlay_def
          IsPlaying_set_def Let_def upd_play_def del: fire.simps)
  have ie: "player_inv (insert i Z) ?e"
    using detached_store_inv[OF i1 n1]
    by (simp add: player_inv_def store_inv_def live_def)
  have re: "rs5 ?e" using r by (simp add: upd_play_def)
  have ve: "m_playAsyncVersion ?e = m_playAsyncVersion s" by (simp add: upd_play_def)
  from assms(3) obtain f' t' l' H' where m: "(CallPlayAsync f' t' l', H') \<in> set (g False ?e)"
    by blast
  then have m': "(CallPlayAsync f' t' l', fire H') \<in> set (map (map_prod id fire) (g False ?e))"
    by force
  have ok: "\<forall>(c, h) \<in> set (map (map_prod id fire) (g False ?e)). callback_ok h"
    using fire_ok by auto
  from run_calls_bumps[OF ok ie re m']
  have "m_playAsyncVersion ?e < m_playAsyncVersion (?h False ?e)" by simp
  then show ?thesis unfolding eq using ve by simp
qed

lemma PlayAsync_call_of_Start:
  assumes "player_inv {} s" "callback_ok h" "fst (PlayAsync h f t l s) = Awaiting i"
  shows "\<exists>s4. rs5 s4 \<and> m_nowPlaying s4 = Some i \<and> i < length (plays s4) \<and> \<not> is_playing s4
           \<and> m_controller (plays s4 ! i) = None
           \<and> (m_fromProgress (plays s4 ! i), m_toProgress (plays s4 ! i)) = rewrite_then_clamp f t
           \<and> snd (PlayAsync h f t l s)
               = (if is_animated_visual_loaded s4 then AnimationPlay_Start h i s4 else s4)"
proof -
  let ?s1 = "s\<lparr>m_playAsyncVersion := m_playAsyncVersion s + 1\<rparr>"
  let ?s2 = "Stop h ?s1"
  from assms(3) have r: "rs5 s" by (auto simp add: PlayAsync_def split: if_splits)
  from assms(3) r have v: "m_playAsyncVersion ?s2 = m_playAsyncVersion ?s1"
    by (auto simp add: PlayAsync_def Let_def split: if_splits)
  have i1: "player_inv {} ?s1" using assms(1) by (simp add: player_inv_def store_inv_def live_def)
  note S = Stop_ok[OF i1 assms(2)]
  from S(3)[OF v] have n2: "m_nowPlaying ?s2 = None" .
  have c3: "CompleteCurrentPlay h ?s2 = ?s2"
    using n2 by (simp add: CompleteCurrentPlay_def MUX_ASSERT_def)
  define p where "p = new_AnimationPlay ?s2 (fst (rewrite_then_clamp f t)) (snd (rewrite_then_clamp f t)) l"
  let ?n = "length (plays ?s2)"
  let ?s4 = "?s2\<lparr>plays := plays ?s2 @ [p], m_nowPlaying := Some ?n\<rparr>"
  have eq: "PlayAsync h f t l s =
      (Awaiting ?n, if is_animated_visual_loaded ?s4 then AnimationPlay_Start h ?n ?s4 else ?s4)"
    using r v c3 by (simp add: PlayAsync_def Let_def p_def rewrite_then_clamp_def)
  from assms(3) eq have i: "i = ?n" by simp
  have r2: "rs5 ?s2" using S(2) r by (simp add: version_step_def)
  have ip: "\<not> is_playing ?s2" using S(1) n2 by (simp add: player_inv_def)
  have "rs5 ?s4 \<and> m_nowPlaying ?s4 = Some i \<and> i < length (plays ?s4) \<and> \<not> is_playing ?s4
           \<and> m_controller (plays ?s4 ! i) = None
           \<and> (m_fromProgress (plays ?s4 ! i), m_toProgress (plays ?s4 ! i)) = rewrite_then_clamp f t
           \<and> snd (PlayAsync h f t l s)
               = (if is_animated_visual_loaded ?s4 then AnimationPlay_Start h i ?s4 else ?s4)"
    unfolding i eq using r2 ip by (simp add: p_def new_AnimationPlay_def)
  then show ?thesis by blast
qed

lemma loaded_player_inv: "player_inv {} (loaded_player c)"
  by (simp add: player_inv_def store_inv_def live_def loaded_player_def)

lemma looping_player_eq:
  "looping_player = (loaded_player 0)
     \<lparr>progress_animation := Some \<lparr>anim_duration = 10000000, anim_keyFrames = [(0, 0), (1, 1)],
                                   anim_iteration = Forever\<rparr>,
      is_playing := True, is_playing_trace := [True], m_nowPlaying := Some 0,
      plays := [\<lparr>m_fromProgress = 0, m_toProgress = 1, m_looped = True,
                 m_playDuration = 10000000, m_isPaused = False, m_isPausedBecauseHidden = False,
                 m_controller = Some \<lparr>ctl_paused = False, ctl_playbackRate = 1, ctl_progress = 0\<rparr>,
                 m_batch = False, m_batchCompletedToken = False, awaits_completed = 0\<rparr>],
      m_playAsyncVersion := 1\<rparr>"
  by (simp add: looping_player_def PlayAsync_def Stop_def loaded_player_def CompleteCurrentPlay_def
      MUX_ASSERT_def AnimationPlay_Start_def new_AnimationPlay_def play_duration_values
      std_clamp_def static_cast_float_def
      TimeSpan_20ms_def Let_def upd_play_def IsPlaying_set_def no_callback_def key_frames_def
      new_AnimationController_def)

lemma looping_player_inv: "player_inv {} looping_player"
  unfolding looping_player_def
  using PlayAsync_ok[OF loaded_player_inv no_callback_ok] by simp

lemma started_play_eq:
  "started_play = \<lparr>m_fromProgress = 0, m_toProgress = 1, m_looped = False,
                 m_playDuration = 10000000, m_isPaused = False, m_isPausedBecauseHidden = False,
                 m_controller = Some \<lparr>ctl_paused = False, ctl_playbackRate = 1, ctl_progress = 0\<rparr>,
                 m_batch = True, m_batchCompletedToken = True, awaits_completed = 0\<rparr>"
  by (simp add: started_play_def PlayAsync_def Stop_def loaded_player_def CompleteCurrentPlay_def
      MUX_ASSERT_def AnimationPlay_Start_def new_AnimationPlay_def play_duration_values
      std_clamp_def static_cast_float_def
      TimeSpan_20ms_def Let_def upd_play_def IsPlaying_set_def no_callback_def key_frames_def
      new_AnimationController_def)


section \<open>Play duration\<close>




section \<open>Boundary rewrites and clamping\<close>

text \<open>
  Claim C5. For every \<open>x > 0\<close> a request \<open>[x \<rightarrow> 0]\<close> behaves as the request \<open>[x \<rightarrow> 1]\<close>, and
  for every \<open>y > 0\<close> a request \<open>[1 \<rightarrow> y]\<close> behaves as the request \<open>[0 \<rightarrow> y]\<close>: \<open>PlayAsync\<close>
  returns the same handle and leaves the same state, whatever the state, the loop flag and
  the callback.
\<close>

theorem boundary_requests_equal:
  "(0 < x \<longrightarrow> PlayAsync h x 0 l s = PlayAsync h x 1 l s)
   \<and> (0 < y \<longrightarrow> PlayAsync h 1 y l s = PlayAsync h 0 y l s)"
  by (simp add: PlayAsync_def Let_def)

theorem boundary_requests_equal_witness:
  "(0::real) < 2/5 \<and> (0::real) < 3/10
   \<and> PlayAsync no_callback (2/5) 0 False (loaded_player 0)
       = PlayAsync no_callback (2/5) 1 False (loaded_player 0)
   \<and> PlayAsync no_callback 1 (3/10) False (loaded_player 0)
       = PlayAsync no_callback 0 (3/10) False (loaded_player 0)"
  using boundary_requests_equal[of "2/5" no_callback False "loaded_player 0" "3/10"] by simp

text \<open>
  Claim C6: the play receives the inputs clamped to [0,1], with the two boundary rewrites
  applied to the clamped values. \<open>PlayAsync\<close> tests its arguments for 0 and 1 before it
  clamps them, so an argument that only the clamp brings to 0 or 1 misses its rewrite.
  Evaluated: the request \<open>[2 \<rightarrow> 3/10]\<close> is constructed as \<open>[1 \<rightarrow> 3/10]\<close>, while the request
  \<open>[1 \<rightarrow> 3/10]\<close> is constructed as \<open>[0 \<rightarrow> 3/10]\<close>. The request \<open>[1/2 \<rightarrow> -3]\<close> gets the key
  frames of a wrap, one of them at \<open>1 + FLT_EPSILON\<close>, which the request \<open>[1/2 \<rightarrow> 0]\<close> does
  not get. A play below the minimum duration jumps to progress 1 when requested as
  \<open>[2 \<rightarrow> 1/1000]\<close> and to progress 0 when requested as \<open>[1 \<rightarrow> 1/1000]\<close>.
\<close>

theorem PlayAsync_out_of_range_not_normalised:
  "(m_fromProgress (plays (snd (PlayAsync no_callback 2 (3/10) False (loaded_player 0))) ! 0),
    m_toProgress (plays (snd (PlayAsync no_callback 2 (3/10) False (loaded_player 0))) ! 0))
     = (1, 3/10)
   \<and> (m_fromProgress (plays (snd (PlayAsync no_callback 1 (3/10) False (loaded_player 0))) ! 0),
      m_toProgress (plays (snd (PlayAsync no_callback 1 (3/10) False (loaded_player 0))) ! 0))
     = (0, 3/10)
   \<and> spec_clamp_then_rewrite 2 (3/10) = (0, 3/10)
   \<and> (m_fromProgress (plays (snd (PlayAsync no_callback 2 (3/10) False (loaded_player 0))) ! 0),
      m_toProgress (plays (snd (PlayAsync no_callback 2 (3/10) False (loaded_player 0))) ! 0))
     \<noteq> spec_clamp_then_rewrite 2 (3/10)
   \<and> map_option anim_keyFrames
        (progress_animation (snd (PlayAsync no_callback (1/2) (- 3) False (loaded_player 0))))
     = Some [(0, 1/2), (1, 1), (1 + FLT_EPSILON, 0), (1, 0)]
   \<and> map_option anim_keyFrames
        (progress_animation (snd (PlayAsync no_callback (1/2) 0 False (loaded_player 0))))
     = Some [(0, 1/2), (1, 1)]
   \<and> progress (snd (PlayAsync no_callback 2 (1/1000) False (loaded_player 0))) = 1
   \<and> progress (snd (PlayAsync no_callback 1 (1/1000) False (loaded_player 0))) = 0"
proof -
  have a: "(m_fromProgress (plays (snd (PlayAsync no_callback 2 (3/10) False (loaded_player 0))) ! 0),
    m_toProgress (plays (snd (PlayAsync no_callback 2 (3/10) False (loaded_player 0))) ! 0))
     = (1, 3/10)"
    by (simp add: loaded_player_def eval_defs)
  have b: "(m_fromProgress (plays (snd (PlayAsync no_callback 1 (3/10) False (loaded_player 0))) ! 0),
      m_toProgress (plays (snd (PlayAsync no_callback 1 (3/10) False (loaded_player 0))) ! 0))
     = (0, 3/10)"
    by (simp add: loaded_player_def eval_defs)
  have c: "spec_clamp_then_rewrite 2 (3/10) = (0, 3/10)"
    by (simp add: spec_clamp_then_rewrite_def std_clamp_def)
  have d: "map_option anim_keyFrames
        (progress_animation (snd (PlayAsync no_callback (1/2) (- 3) False (loaded_player 0))))
     = Some [(0, 1/2), (1, 1), (1 + FLT_EPSILON, 0), (1, 0)]"
    by (simp add: loaded_player_def key_frames_wrap_at_end PlayAsync_def Stop_def SetProgress_def
      CompleteCurrentPlay_def MUX_ASSERT_def AnimationPlay_Start_def new_AnimationPlay_def
      play_duration_values std_clamp_def static_cast_float_def TimeSpan_20ms_def Let_def
      upd_play_def IsPlaying_set_def no_callback_def new_AnimationController_def)
  have e: "map_option anim_keyFrames
        (progress_animation (snd (PlayAsync no_callback (1/2) 0 False (loaded_player 0))))
     = Some [(0, 1/2), (1, 1)]"
    by (simp add: loaded_player_def eval_defs)
  have f: "progress (snd (PlayAsync no_callback 2 (1/1000) False (loaded_player 0))) = 1"
    by (simp add: loaded_player_def eval_defs)
  have g: "progress (snd (PlayAsync no_callback 1 (1/1000) False (loaded_player 0))) = 0"
    by (simp add: loaded_player_def eval_defs)
  show ?thesis using a b c d e f g by simp
qed

lemma rewrite_orders_agree:
  "0 \<le> f \<Longrightarrow> f \<le> 1 \<Longrightarrow> 0 \<le> t \<Longrightarrow> t \<le> 1 \<Longrightarrow> rewrite_then_clamp f t = spec_clamp_then_rewrite f t"
  by (simp add: rewrite_then_clamp_def spec_clamp_then_rewrite_def std_clamp_def
        static_cast_float_def Let_def)

text \<open>
  What \<open>PlayAsync\<close> hands to the constructor, for every callback: the rewrites act on the
  arguments as given, the clamp on their results, and no later step changes the values.
  For arguments in [0,1] these are the values of the claimed order.
\<close>

lemma constructed_play_values:
  assumes "PlayAsync (fire H) f t l s = (Awaiting i, s')"
  shows "i < length (plays s')
       \<and> (m_fromProgress (plays s' ! i), m_toProgress (plays s' ! i)) = rewrite_then_clamp f t
       \<and> (0 \<le> f \<and> f \<le> 1 \<and> 0 \<le> t \<and> t \<le> 1 \<longrightarrow>
            (m_fromProgress (plays s' ! i), m_toProgress (plays s' ! i)) = spec_clamp_then_rewrite f t)"
proof -
  let ?h = "fire H"
  let ?s1 = "s\<lparr>m_playAsyncVersion := m_playAsyncVersion s + 1\<rparr>"
  let ?s2 = "Stop ?h ?s1"
  let ?s3 = "CompleteCurrentPlay ?h ?s2"
  define p where "p = new_AnimationPlay ?s3 (fst (rewrite_then_clamp f t)) (snd (rewrite_then_clamp f t)) l"
  let ?n = "length (plays ?s3)"
  let ?s4 = "?s3\<lparr>plays := plays ?s3 @ [p], m_nowPlaying := Some ?n\<rparr>"
  from assms have r: "rs5 s" by (auto simp add: PlayAsync_def split: if_splits)
  from assms r have v: "m_playAsyncVersion s + 1 = m_playAsyncVersion ?s2"
    by (auto simp add: PlayAsync_def Let_def split: if_splits)
  have eq: "PlayAsync ?h f t l s =
      (Awaiting ?n, if is_animated_visual_loaded ?s4 then AnimationPlay_Start ?h ?n ?s4 else ?s4)"
    using r v by (simp add: PlayAsync_def Let_def p_def rewrite_then_clamp_def)
  from assms eq have i: "i = ?n"
    and s': "s' = (if is_animated_visual_loaded ?s4 then AnimationPlay_Start ?h ?n ?s4 else ?s4)"
    by simp_all
  have g: "store_grows ?s4 s'"
    unfolding s' using Start_grows[OF fire_grows] by (simp add: store_grows_refl)
  have n4: "?n < length (plays ?s4)" by simp
  have p4: "plays ?s4 ! ?n = p" by simp
  from g n4 have a: "?n < length (plays s')"
    "m_fromProgress (plays s' ! ?n) = m_fromProgress (plays ?s4 ! ?n)"
    "m_toProgress (plays s' ! ?n) = m_toProgress (plays ?s4 ! ?n)"
    unfolding store_grows_def by (auto simp del: nth_append_length)
  have b: "(m_fromProgress p, m_toProgress p) = rewrite_then_clamp f t"
    by (simp add: p_def new_AnimationPlay_def)
  have c: "(m_fromProgress (plays s' ! i), m_toProgress (plays s' ! i)) = rewrite_then_clamp f t"
    using a(2,3) b unfolding i p4 by simp
  show ?thesis using a(1) c i rewrite_orders_agree[of f t] by simp
qed

section \<open>Pause sources\<close>

lemma apply_pause_call_step:
  assumes "time_driver_suspended p \<in> {None, Some (m_isPaused p \<or> m_isPausedBecauseHidden p)}"
  shows "time_driver_suspended (apply_pause_call c p)
           = (if m_controller p = None then None
              else Some (m_isPaused (apply_pause_call c p)
                         \<or> m_isPausedBecauseHidden (apply_pause_call c p)))
       \<and> (m_controller (apply_pause_call c p) = None \<longleftrightarrow> m_controller p = None)
       \<and> m_isPaused (apply_pause_call c p) = spec_user_pause [c] (m_isPaused p)
       \<and> m_isPausedBecauseHidden (apply_pause_call c p)
           = spec_visibility_pause [c] (m_isPausedBecauseHidden p)"
proof (cases "m_controller p")
  case None
  then show ?thesis
    by (cases c)
       (simp_all add: time_driver_suspended_def AnimationPlay_Pause_def AnimationPlay_Resume_def
          AnimationPlay_OnHiding_def AnimationPlay_OnUnhiding_def Let_def)
next
  case (Some k)
  with assms have kp: "ctl_paused k = (m_isPaused p \<or> m_isPausedBecauseHidden p)"
    by (simp add: time_driver_suspended_def)
  show ?thesis
    using Some kp
    by (cases c)
       (auto simp add: time_driver_suspended_def AnimationPlay_Pause_def AnimationPlay_Resume_def
          AnimationPlay_OnHiding_def AnimationPlay_OnUnhiding_def Controller_Pause_def
          Controller_Resume_def Let_def)
qed

lemma spec_user_pause_Cons:
  "spec_user_pause (c # cs) b = spec_user_pause cs (spec_user_pause [c] b)"
  by (cases c) simp_all

lemma spec_visibility_pause_Cons:
  "spec_visibility_pause (c # cs) b = spec_visibility_pause cs (spec_visibility_pause [c] b)"
  by (cases c) simp_all

lemma Start_time_driver:
  assumes "this < length (plays s)" "\<not> m_playDuration (plays s ! this) < TimeSpan_20ms"
  shows "time_driver_suspended (plays (AnimationPlay_Start no_callback this s) ! this)
           = Some (m_isPaused (plays s ! this) \<or> m_isPausedBecauseHidden (plays s ! this))
       \<and> m_isPaused (plays (AnimationPlay_Start no_callback this s) ! this)
           = m_isPaused (plays s ! this)
       \<and> m_isPausedBecauseHidden (plays (AnimationPlay_Start no_callback this s) ! this)
           = m_isPausedBecauseHidden (plays s ! this)"
  using assms
  by (simp add: AnimationPlay_Start_def MUX_ASSERT_def Let_def IsPlaying_set_def no_callback_def
        upd_play_def time_driver_suspended_def Controller_Pause_def new_AnimationController_def)

text \<open>
  Claim C7. For every play and every sequence of \<open>Pause\<close>, \<open>Resume\<close>, \<open>OnHiding\<close> and
  \<open>OnUnhiding\<close> calls: once the play is started, its time driver is suspended exactly when
  user pause or visibility pause is set, and each flag follows the calls of its own source
  only. So after both sources have paused, clearing one leaves the play suspended and
  clearing both resumes it. A play that is not started has no time driver; it records the
  flags, and \<open>Start\<close> creates the driver suspended exactly when one is set
  (\<open>Start_time_driver\<close>). The assumption holds for a play as constructed and is kept by
  every call.
\<close>

theorem pause_sources_independent:
  assumes "time_driver_suspended p \<in> {None, Some (m_isPaused p \<or> m_isPausedBecauseHidden p)}"
  shows "time_driver_suspended (run_pause_calls cs p)
           = (if m_controller p = None then None
              else Some (spec_user_pause cs (m_isPaused p)
                         \<or> spec_visibility_pause cs (m_isPausedBecauseHidden p)))
       \<and> m_isPaused (run_pause_calls cs p) = spec_user_pause cs (m_isPaused p)
       \<and> m_isPausedBecauseHidden (run_pause_calls cs p)
           = spec_visibility_pause cs (m_isPausedBecauseHidden p)"
  using assms
proof (induction cs arbitrary: p)
  case Nil
  then show ?case by (auto simp add: time_driver_suspended_def)
next
  case (Cons c cs)
  note st = apply_pause_call_step[OF Cons.prems, of c]
  from st have h: "time_driver_suspended (apply_pause_call c p)
           \<in> {None, Some (m_isPaused (apply_pause_call c p)
                         \<or> m_isPausedBecauseHidden (apply_pause_call c p))}"
    by (simp split: if_splits)
  from Cons.IH[OF h] st show ?case
    by (simp add: spec_user_pause_Cons[of c cs] spec_visibility_pause_Cons[of c cs])
qed

theorem pause_sources_independent_witness:
  "time_driver_suspended started_play
     \<in> {None, Some (m_isPaused started_play \<or> m_isPausedBecauseHidden started_play)}
   \<and> m_controller started_play \<noteq> None
   \<and> time_driver_suspended (run_pause_calls [PauseCall, HidingCall, ResumeCall] started_play) = Some True
   \<and> time_driver_suspended (run_pause_calls [PauseCall, HidingCall, UnhidingCall] started_play) = Some True
   \<and> time_driver_suspended
       (run_pause_calls [PauseCall, HidingCall, ResumeCall, UnhidingCall] started_play) = Some False
   \<and> time_driver_suspended
       (run_pause_calls [HidingCall, PauseCall, UnhidingCall, ResumeCall] started_play) = Some False"
proof -
  have h: "time_driver_suspended started_play
     \<in> {None, Some (m_isPaused started_play \<or> m_isPausedBecauseHidden started_play)}"
    by (simp add: started_play_eq time_driver_suspended_def)
  show ?thesis
    using h pause_sources_independent[OF h, of "[PauseCall, HidingCall, ResumeCall]"]
      pause_sources_independent[OF h, of "[PauseCall, HidingCall, UnhidingCall]"]
      pause_sources_independent[OF h, of "[PauseCall, HidingCall, ResumeCall, UnhidingCall]"]
      pause_sources_independent[OF h, of "[HidingCall, PauseCall, UnhidingCall, ResumeCall]"]
    by (simp add: started_play_eq)
qed

section \<open>Plays below the minimum duration\<close>

text \<open>
  Claim C8. When the duration of a play is below 20 ms, starting it writes \<open>fromProgress\<close> to
  the progress and completes the play at once: the play gets no animation and no
  controller, \<open>IsPlaying\<close> is never set to true (the one value stored is \<open>False\<close>), the play is
  detached and its awaits are released once, whatever the callback. The assumptions are
  those under which the source calls \<open>Start\<close>: in a player that satisfies the invariant, on
  the current play, which has not been started, while \<open>IsPlaying\<close> is false
  (\<open>PlayAsync_call_of_Start\<close>); the values of a play constructed by \<open>PlayAsync\<close> are in
  [0,1].
\<close>

theorem short_play_completes_at_once:
  assumes "player_inv {} s" "m_nowPlaying s = Some this" "\<not> is_playing s"
    and "m_controller (plays s ! this) = None"
    and "m_playDuration (plays s ! this) < TimeSpan_20ms"
  shows "progress (AnimationPlay_Start h this s) = std_clamp (m_fromProgress (plays s ! this)) 0 1
       \<and> (0 \<le> m_fromProgress (plays s ! this) \<and> m_fromProgress (plays s ! this) \<le> 1 \<longrightarrow>
            progress (AnimationPlay_Start h this s) = m_fromProgress (plays s ! this))
       \<and> progress_animation (AnimationPlay_Start h this s) = None
       \<and> m_nowPlaying (AnimationPlay_Start h this s) = None
       \<and> awaits_completed (plays (AnimationPlay_Start h this s) ! this) = 1
       \<and> m_controller (plays (AnimationPlay_Start h this s) ! this) = None
       \<and> \<not> is_playing (AnimationPlay_Start h this s)
       \<and> is_playing_trace (AnimationPlay_Start h this s) = False # is_playing_trace s
       \<and> assert_failed (AnimationPlay_Start h this s) = assert_failed s"
proof -
  from assms(1,2) have r: "rs5 s" by (simp add: player_inv_def store_inv_def)
  note l = player_inv_current_live[OF assms(1,2)]
  show ?thesis
    using r l assms(2-5)
    by (simp add: AnimationPlay_Start_def MUX_ASSERT_def SetProgress_def Let_def
          InsertScalar_Progress_def AnimationPlay_Complete_def IsCurrentPlay_def IsPlaying_set_def
          CompleteAwaits_def upd_play_def static_cast_float_def std_clamp_def)
qed

theorem short_play_completes_at_once_witness:
  "player_inv {} short_play_player \<and> m_nowPlaying short_play_player = Some 0
   \<and> \<not> is_playing short_play_player
   \<and> m_controller (plays short_play_player ! 0) = None
   \<and> m_playDuration (plays short_play_player ! 0) < TimeSpan_20ms
   \<and> PlayAsync no_callback (1/2) (501/1000) False (loaded_player 0)
       = (Awaiting 0, AnimationPlay_Start no_callback 0 short_play_player)
   \<and> progress (AnimationPlay_Start no_callback 0 short_play_player) = 1/2
   \<and> m_nowPlaying (AnimationPlay_Start no_callback 0 short_play_player) = None
   \<and> awaits_completed (plays (AnimationPlay_Start no_callback 0 short_play_player) ! 0) = 1
   \<and> is_playing_trace (AnimationPlay_Start no_callback 0 short_play_player) = [False]"
proof -
  have lv: "live short_play_player = {0}"
    by (auto simp add: live_def short_play_player_def loaded_player_def new_AnimationPlay_def)
  have i: "player_inv {} short_play_player"
    unfolding player_inv_def store_inv_def lv
    by (simp add: short_play_player_def loaded_player_def new_AnimationPlay_def)
  have h: "m_nowPlaying short_play_player = Some 0"
    "\<not> is_playing short_play_player"
    "m_controller (plays short_play_player ! 0) = None"
    "m_playDuration (plays short_play_player ! 0) < TimeSpan_20ms"
    by (simp_all add: short_play_player_def loaded_player_def new_AnimationPlay_def
          play_duration_values TimeSpan_20ms_def)
  have f: "m_fromProgress (plays short_play_player ! 0) = 1/2"
    "is_playing_trace short_play_player = []"
    by (simp_all add: short_play_player_def loaded_player_def new_AnimationPlay_def)
  have e: "PlayAsync no_callback (1/2) (501/1000) False (loaded_player 0)
       = (Awaiting 0, AnimationPlay_Start no_callback 0 short_play_player)"
    by (simp add: PlayAsync_def Stop_def CompleteCurrentPlay_def MUX_ASSERT_def Let_def
          short_play_player_def loaded_player_def std_clamp_def static_cast_float_def
          new_AnimationPlay_def)
  show ?thesis
    using i h e short_play_completes_at_once[OF i h, of no_callback]
    by (simp add: f)
qed

text \<open>
  The example of the specification (one hour of content, from 0.50001 to 0.50002, each
  rounded to \<open>float\<close>) is a duration of 360488 ticks, 36 ms, which is not below the
  threshold.
\<close>

lemma spec_example_duration:
  "binary32 (50001/100000) = 8388776 / 2 ^ 24"
  "binary32 (50002/100000) = 8388944 / 2 ^ 24"
  "TimeSpan_times 36000000000
     (durationAsProgress (binary32 (50001/100000)) (binary32 (50002/100000))) = 360488"
  "\<not> (360488 < TimeSpan_20ms)"
proof -
  show a: "binary32 (50001/100000) = 8388776 / 2 ^ 24"
    using binary32_eval[of "-1" "50001/100000"] by (simp add: pow2_def round_half_even_def)
  show b: "binary32 (50002/100000) = 8388944 / 2 ^ 24"
    using binary32_eval[of "-1" "50002/100000"] by (simp add: pow2_def round_half_even_def)
  have c: "binary32 (168 / 2 ^ 24) = 168 / 2 ^ 24"
    using binary32_eval[of "-17" "168 / 2 ^ 24"] by (simp add: pow2_def round_half_even_def)
  have d: "binary32 (92285151 / 256) = 2883911 / 8"
    using binary32_eval[of 18 "92285151 / 256"]
    by (simp add: pow2_def round_half_even_def)
  have e: "durationAsProgress (8388776 / 2 ^ 24) (8388944 / 2 ^ 24) = 168 / 2 ^ 24"
    using c by (simp add: durationAsProgress_def)
  have "TimeSpan_times 36000000000 (168 / 2 ^ 24) = 360488"
    by (simp add: TimeSpan_times_def binary32_values d duration_cast_TimeSpan_def)
  then show "TimeSpan_times 36000000000
     (durationAsProgress (binary32 (50001/100000)) (binary32 (50002/100000))) = 360488"
    unfolding a b e .
  show "\<not> (360488 < TimeSpan_20ms)" by (simp add: TimeSpan_20ms_def)
qed

section \<open>SetProgress and Stop\<close>




text \<open>
  Claim C1: \<open>Stop()\<close> forces the progress to the \<open>fromProgress\<close> of the active play. The source
  passes the member \<open>m_currentPlayFromProgress\<close> to \<open>SetProgress\<close>, and no function of the
  source file assigns that member (\<open>store_grows\<close>). Evaluated on a play requested from 1/5,
  on a player whose member holds \<open>c\<close>: the play records 1/5, and \<open>Stop()\<close> leaves the progress
  at \<open>c\<close> clamped to [0,1], which is 0 for a member initialised to 0.
\<close>

theorem Stop_uses_stale_member:
  "FromProgress (plays (snd (PlayAsync no_callback (1/5) (4/5) False (loaded_player c))) ! 0) = 1/5
   \<and> progress (Stop no_callback (snd (PlayAsync no_callback (1/5) (4/5) False (loaded_player c))))
       = std_clamp c 0 1
   \<and> progress (Stop no_callback (snd (PlayAsync no_callback (1/5) (4/5) False (loaded_player 0)))) = 0"
  by (simp add: PlayAsync_def Stop_def SetProgress_def loaded_player_def CompleteCurrentPlay_def MUX_ASSERT_def
     AnimationPlay_Start_def new_AnimationPlay_def play_duration_values
     std_clamp_def static_cast_float_def TimeSpan_20ms_def Let_def upd_play_def IsPlaying_set_def no_callback_def
     InsertScalar_Progress_def AnimationPlay_Complete_def IsCurrentPlay_def CompleteAwaits_def FromProgress_def)

section \<open>One current play\<close>

text \<open>
  Claim C3. Starting from a player in which every play that has not completed is the
  current play, \<open>PlayAsync\<close> leaves such a player, under any callback that acts on the
  player through the calls of \<open>call\<close>: at most one play is live, and it is the current one.
  The play that was current at the call has completed (its awaits are released) and is not
  current afterwards. When the call goes on to install its play, no play is current at that
  point and the assertion of \<open>CompleteCurrentPlay\<close> holds. When the version counter after
  \<open>Stop()\<close> is not the version of this call, the call returns the state that \<open>Stop()\<close> left:
  it constructs and installs nothing; this is what happens whenever a play is playing and
  the callback requests a play when \<open>IsPlaying\<close> turns false. The same invariant holds after
  any sequence of calls on the player, each with any such callback.
\<close>

theorem PlayAsync_single_current_play:
  assumes "player_inv {} s"
  shows "player_inv {} (snd (PlayAsync (fire H) f t l s))
       \<and> (\<forall>i < length (plays (snd (PlayAsync (fire H) f t l s))).
             awaits_completed (plays (snd (PlayAsync (fire H) f t l s)) ! i) = 0 \<longrightarrow>
             m_nowPlaying (snd (PlayAsync (fire H) f t l s)) = Some i)
       \<and> (\<forall>i. m_nowPlaying s = Some i \<longrightarrow>
             i < length (plays (snd (PlayAsync (fire H) f t l s)))
           \<and> awaits_completed (plays (snd (PlayAsync (fire H) f t l s)) ! i) = 1
           \<and> m_nowPlaying (snd (PlayAsync (fire H) f t l s)) \<noteq> Some i)
       \<and> (m_playAsyncVersion (after_Stop (fire H) s) = m_playAsyncVersion s + 1 \<longrightarrow>
             m_nowPlaying (after_Stop (fire H) s) = None
           \<and> CompleteCurrentPlay (fire H) (after_Stop (fire H) s) = after_Stop (fire H) s)
       \<and> (m_playAsyncVersion (after_Stop (fire H) s) \<noteq> m_playAsyncVersion s + 1 \<longrightarrow>
             PlayAsync (fire H) f t l s = (Returned, after_Stop (fire H) s))
       \<and> (is_playing s
            \<and> (\<forall>s0. \<exists>f' t' l' H'. (CallPlayAsync f' t' l', H') \<in> set (g False s0)) \<longrightarrow>
             PlayAsync (fire (Handler g)) f t l s = (Returned, after_Stop (fire (Handler g)) s))
       \<and> (\<forall>cs. player_inv {} (run_calls (map (map_prod id fire) cs) s))"
proof -
  let ?s' = "snd (PlayAsync (fire H) f t l s)"
  let ?s1 = "s\<lparr>m_playAsyncVersion := m_playAsyncVersion s + 1\<rparr>"
  have i1: "player_inv {} ?s1"
    using assms by (simp add: player_inv_def store_inv_def live_def)
  have inv': "player_inv {} ?s'"
    using PlayAsync_ok[OF assms fire_ok] by simp
  have one: "\<forall>i < length (plays ?s'). awaits_completed (plays ?s' ! i) = 0 \<longrightarrow>
             m_nowPlaying ?s' = Some i"
    using player_inv_uncompleted_is_current[OF inv'] by blast
  have prev: "\<forall>i. m_nowPlaying s = Some i \<longrightarrow>
             i < length (plays ?s') \<and> awaits_completed (plays ?s' ! i) = 1
           \<and> m_nowPlaying ?s' \<noteq> Some i"
  proof (intro allI impI)
    fix i assume a: "m_nowPlaying s = Some i"
    with assms have r: "rs5 s" by (simp add: player_inv_def store_inv_def)
    let ?s1a = "InsertScalar_Progress
        (static_cast_float (std_clamp (static_cast_float (m_currentPlayFromProgress ?s1)) 0 1)) ?s1"
    have i1a: "player_inv {} ?s1a"
      using i1 by (simp add: player_inv_InsertScalar)
    have n1: "m_nowPlaying ?s1a = Some i" using a by simp
    have eq: "Stop (fire H) ?s1 = AnimationPlay_Complete (fire H) i ?s1a"
      using a r by (simp add: Stop_def SetProgress_def Let_def)
    from Complete_ok(4,5)[OF i1a n1 fire_ok]
    have c: "i < length (plays (Stop (fire H) ?s1))"
      "awaits_completed (plays (Stop (fire H) ?s1) ! i) = 1"
      unfolding eq by simp_all
    from PlayAsync_grows_after_Stop[OF fire_grows[of H] r, where f = f and t = t and l = l] c
    have d: "i < length (plays ?s')" "1 \<le> awaits_completed (plays ?s' ! i)"
      unfolding store_grows_def by auto
    from player_inv_completed[OF inv' d] d(1)
    show "i < length (plays ?s') \<and> awaits_completed (plays ?s' ! i) = 1
           \<and> m_nowPlaying ?s' \<noteq> Some i" by simp
  qed
  have before: "m_playAsyncVersion (after_Stop (fire H) s) = m_playAsyncVersion s + 1 \<longrightarrow>
             m_nowPlaying (after_Stop (fire H) s) = None
           \<and> CompleteCurrentPlay (fire H) (after_Stop (fire H) s) = after_Stop (fire H) s"
  proof
    assume "m_playAsyncVersion (after_Stop (fire H) s) = m_playAsyncVersion s + 1"
    then have "m_playAsyncVersion (Stop (fire H) ?s1) = m_playAsyncVersion ?s1"
      by (simp add: after_Stop_def)
    from Stop_ok(3)[OF i1 fire_ok this]
    have n: "m_nowPlaying (after_Stop (fire H) s) = None" by (simp add: after_Stop_def)
    then show "m_nowPlaying (after_Stop (fire H) s) = None
           \<and> CompleteCurrentPlay (fire H) (after_Stop (fire H) s) = after_Stop (fire H) s"
      by (simp add: CompleteCurrentPlay_def MUX_ASSERT_def)
  qed
  have abandon: "m_playAsyncVersion (after_Stop h s) \<noteq> m_playAsyncVersion s + 1 \<longrightarrow>
             PlayAsync h f t l s = (Returned, after_Stop h s)" for h
    by (auto simp add: PlayAsync_def Let_def after_Stop_def Stop_def)
  have overtaken: "is_playing s
            \<and> (\<forall>s0. \<exists>f' t' l' H'. (CallPlayAsync f' t' l', H') \<in> set (g False s0)) \<longrightarrow>
             PlayAsync (fire (Handler g)) f t l s = (Returned, after_Stop (fire (Handler g)) s)"
  proof
    assume a: "is_playing s
            \<and> (\<forall>s0. \<exists>f' t' l' H'. (CallPlayAsync f' t' l', H') \<in> set (g False s0))"
    then have p1: "is_playing ?s1" by simp
    from Stop_overtaken[OF i1 p1, of g] a
    have "m_playAsyncVersion (after_Stop (fire (Handler g)) s) \<noteq> m_playAsyncVersion s + 1"
      by (simp add: after_Stop_def del: fire.simps)
    with abandon[of "fire (Handler g)"]
    show "PlayAsync (fire (Handler g)) f t l s = (Returned, after_Stop (fire (Handler g)) s)"
      by blast
  qed
  have runs: "\<forall>cs. player_inv {} (run_calls (map (map_prod id fire) cs) s)"
  proof
    fix cs :: "(call \<times> handler) list"
    have "\<forall>(c, h) \<in> set (map (map_prod id fire) cs). callback_ok h"
      using fire_ok by auto
    from run_calls_ok[OF this assms]
    show "player_inv {} (run_calls (map (map_prod id fire) cs) s)" by simp
  qed
  show ?thesis using inv' one prev before abandon[of "fire H"] overtaken runs by blast
qed

theorem PlayAsync_single_current_play_witness:
  "player_inv {} looping_player \<and> is_playing looping_player
   \<and> m_nowPlaying looping_player = Some 0
   \<and> PlayAsync (fire replay_handler) 0 1 False looping_player
       = (Returned, after_Stop (fire replay_handler) looping_player)
   \<and> m_playAsyncVersion looping_player + 1 = 2
   \<and> m_playAsyncVersion (after_Stop (fire replay_handler) looping_player) = 3
   \<and> m_nowPlaying (snd (PlayAsync (fire replay_handler) 0 1 False looping_player)) = Some 1
   \<and> length (plays (snd (PlayAsync (fire replay_handler) 0 1 False looping_player))) = 2
   \<and> awaits_completed (plays (snd (PlayAsync (fire replay_handler) 0 1 False looping_player)) ! 0) = 1
   \<and> awaits_completed (plays (snd (PlayAsync (fire replay_handler) 0 1 False looping_player)) ! 1) = 0
   \<and> player_inv {} (snd (PlayAsync (fire replay_handler) 0 1 False looping_player))"
proof -
  have e: "PlayAsync (fire replay_handler) 0 1 False looping_player =
     (Returned, looping_player
        \<lparr>progress_animation :=
           Some \<lparr>anim_duration = 5000000, anim_keyFrames = [(0, 1/2), (1, 1)],
                 anim_iteration = Count 1\<rparr>,
         is_playing := True, is_playing_trace := [True, False, True],
         m_nowPlaying := Some 1,
         plays := [(plays looping_player ! 0)\<lparr>awaits_completed := 1\<rparr>,
                   \<lparr>m_fromProgress = 1/2, m_toProgress = 1, m_looped = False,
                    m_playDuration = 5000000, m_isPaused = False, m_isPausedBecauseHidden = False,
                    m_controller = Some \<lparr>ctl_paused = False, ctl_playbackRate = 1, ctl_progress = 0\<rparr>,
                    m_batch = True, m_batchCompletedToken = True, awaits_completed = 0\<rparr>],
         m_playAsyncVersion := 3\<rparr>)"
    by (simp add: looping_player_eq loaded_player_def replay_handler_def eval_defs)
  have a: "is_playing looping_player" "m_nowPlaying looping_player = Some 0"
    "m_playAsyncVersion looping_player + 1 = 2"
    by (simp_all add: looping_player_eq loaded_player_def)
  have g: "\<forall>s0. \<exists>f' t' l' H'. (CallPlayAsync f' t' l', H')
       \<in> set ((\<lambda>v s. if v then [] else [(CallPlayAsync (1/2) 1 False, Handler (\<lambda>v s. []))]) False s0)"
    by (intro allI exI[of _ "1/2"] exI[of _ 1] exI[of _ False] exI[of _ "Handler (\<lambda>v s. [])"]) simp
  from PlayAsync_single_current_play[OF looping_player_inv, of replay_handler 0 1 False
      "\<lambda>v s. if v then [] else [(CallPlayAsync (1/2) 1 False, Handler (\<lambda>v s. []))]"] a(1) g
  have t: "PlayAsync (fire replay_handler) 0 1 False looping_player
       = (Returned, after_Stop (fire replay_handler) looping_player)"
    "player_inv {} (snd (PlayAsync (fire replay_handler) 0 1 False looping_player))"
    unfolding replay_handler_def by blast+
  from t(1) have as: "after_Stop (fire replay_handler) looping_player
       = snd (PlayAsync (fire replay_handler) 0 1 False looping_player)"
    by simp
  have v: "m_playAsyncVersion (after_Stop (fire replay_handler) looping_player) = 3"
    unfolding as by (simp add: e)
  have f: "m_nowPlaying (snd (PlayAsync (fire replay_handler) 0 1 False looping_player)) = Some 1"
    "length (plays (snd (PlayAsync (fire replay_handler) 0 1 False looping_player))) = 2"
    "awaits_completed (plays (snd (PlayAsync (fire replay_handler) 0 1 False looping_player)) ! 0) = 1"
    "awaits_completed (plays (snd (PlayAsync (fire replay_handler) 0 1 False looping_player)) ! 1) = 0"
    by (simp_all add: e)
  show ?thesis
    using looping_player_inv a t v f by blast
qed

section \<open>Releases below RS5\<close>

text \<open>
  Claim C10. Below RS5 \<open>PlayAsync\<close> returns at once, with the coroutine finished and the
  state unchanged, and \<open>Pause\<close>, \<open>Resume\<close>, \<open>SetProgress\<close> and \<open>Stop\<close> leave the state
  unchanged.
\<close>

theorem pre_rs5_no_op:
  "\<not> rs5 s \<Longrightarrow>
     PlayAsync h f t l s = (Returned, s) \<and> Pause s = s \<and> Resume s = s
     \<and> SetProgress h p s = s \<and> Stop h s = s"
  by (simp add: PlayAsync_def Pause_def Resume_def SetProgress_def Stop_def)

theorem pre_rs5_no_op_witness:
  "\<not> rs5 pre_rs5_player
   \<and> PlayAsync no_callback 0 1 True pre_rs5_player = (Returned, pre_rs5_player)
   \<and> Pause pre_rs5_player = pre_rs5_player \<and> Resume pre_rs5_player = pre_rs5_player
   \<and> SetProgress no_callback (1/2) pre_rs5_player = pre_rs5_player
   \<and> Stop no_callback pre_rs5_player = pre_rs5_player"
proof -
  have h: "\<not> rs5 pre_rs5_player" by (simp add: pre_rs5_player_def)
  show ?thesis using h pre_rs5_no_op[OF h, of no_callback 0 1 True "1/2"] by simp
qed

end
